theory Spec2Isabelle
  imports Complex_Main "HOL-Library.AList" "HOL-Library.Multiset"
begin

section \<open>JavaScript strings\<close>

text \<open>
  A JavaScript string is modelled as a \<^typ>\<open>string\<close>: a list of code units, here the
  code units U+0000 to U+00FF. \<open>s.length\<close> is \<^const>\<open>length\<close>, \<open>s[i]\<close> is
  \<open>s ! i\<close> (only ever read under the guard \<open>i < s.length\<close>) and \<open>a + b\<close> is
  \<open>a @ b\<close>.
\<close>

definition dq :: char where
  "dq = CHR 0x22"

definition tab :: char where
  "tab = CHR 0x09"

definition newline :: char where
  "newline = CHR 0x0A"

text \<open>The white space and line terminators that \<open>trim\<close> and \<open>trimStart\<close> strip
  (ECMAScript \<open>WhiteSpace\<close> and \<open>LineTerminator\<close>), among the code units below 256.\<close>

definition is_js_space :: "char \<Rightarrow> bool" where
  "is_js_space c \<longleftrightarrow>
     c \<in> set [CHR 0x09, CHR 0x0A, CHR 0x0B, CHR 0x0C, CHR 0x0D, CHR 0x20, CHR 0xA0]"

definition trimStart :: "string \<Rightarrow> string" where
  "trimStart s = dropWhile is_js_space s"

definition trim :: "string \<Rightarrow> string" where
  "trim s = rev (dropWhile is_js_space (rev (dropWhile is_js_space s)))"

definition startsWith :: "string \<Rightarrow> string \<Rightarrow> bool" where
  "startsWith s p \<longleftrightarrow> take (length p) s = p"

text \<open>\<open>s.substring(a, b)\<close>: both indices are clamped to the length and swapped when
  \<open>a > b\<close>.\<close>

definition substring :: "string \<Rightarrow> nat \<Rightarrow> nat \<Rightarrow> string" where
  "substring s a b =
     (let a' = min a (length s); b' = min b (length s);
          lo = min a' b'; hi = max a' b'
      in take (hi - lo) (drop lo s))"

text \<open>\<open>s.replace(/c/g, r)\<close> for a single character \<open>c\<close>.\<close>

definition replace_all :: "char \<Rightarrow> string \<Rightarrow> string \<Rightarrow> string" where
  "replace_all c r s = concat (map (\<lambda>x. if x = c then r else [x]) s)"

text \<open>\<open>/^\d+$/.test(s)\<close> and \<open>/[a-zA-Z0-9_\-]/.test(c)\<close> on a single character.\<close>

definition in_range :: "char \<Rightarrow> char \<Rightarrow> char \<Rightarrow> bool" where
  "in_range lo hi c \<longleftrightarrow>
     (of_char lo :: nat) \<le> of_char c \<and> (of_char c :: nat) \<le> of_char hi"

definition is_digit :: "char \<Rightarrow> bool" where
  "is_digit c \<longleftrightarrow> in_range (CHR ''0'') (CHR ''9'') c"

definition all_digits :: "string \<Rightarrow> bool" where
  "all_digits s \<longleftrightarrow> s \<noteq> [] \<and> list_all is_digit s"

definition is_word_char :: "char \<Rightarrow> bool" where
  "is_word_char c \<longleftrightarrow>
     in_range (CHR ''a'') (CHR ''z'') c \<or> in_range (CHR ''A'') (CHR ''Z'') c \<or>
     is_digit c \<or> c = CHR ''_'' \<or> c = CHR ''-''"

section \<open>The syntax highlighter of the code editor (CodeEditor.tsx)\<close>

subsection \<open>Colour tokens, \<open>esc\<close> and \<open>span\<close>\<close>

definition T_gutter :: string where "T_gutter = ''#6272a4''"
definition T_keyword :: string where "T_keyword = ''#ff79c6''"
definition T_ident :: string where "T_ident = ''#50fa7b''"
definition T_string :: string where "T_string = ''#f1fa8c''"
definition T_number :: string where "T_number = ''#bd93f9''"
definition T_arrow :: string where "T_arrow = ''#ff5555''"
definition T_prop :: string where "T_prop = ''#8be9fd''"
definition T_propVal :: string where "T_propVal = ''#ffb86c''"
definition T_comment :: string where "T_comment = ''#6272a4''"
definition T_plain :: string where "T_plain = ''#f8f8f2''"

definition esc :: "string \<Rightarrow> string" where
  "esc s =
     replace_all (CHR ''>'') ''&gt;''
       (replace_all (CHR ''<'') ''&lt;''
         (replace_all (CHR ''&'') ''&amp;'' s))"

definition span_open :: "string \<Rightarrow> bool \<Rightarrow> string" where
  "span_open color bold =
     ''<span style='' @ [dq] @ ''color:'' @ color @
     (if bold then '';font-weight:700'' else []) @ [dq] @ ''>''"

definition span_close :: string where
  "span_close = ''</span>''"

definition span :: "string \<Rightarrow> string \<Rightarrow> bool \<Rightarrow> string" where
  "span color txt bold = span_open color bold @ esc txt @ span_close"

definition comment_open :: string where
  "comment_open =
     ''<span style='' @ [dq] @ ''color:'' @ T_comment @ '';font-style:italic'' @ [dq] @ ''>''"

subsection \<open>The inner scanning loops\<close>

text \<open>\<open>while (j < line.length && P(line[j])) j++\<close>, returning the final \<open>j\<close>.\<close>

function scan_while :: "(char \<Rightarrow> bool) \<Rightarrow> string \<Rightarrow> nat \<Rightarrow> nat" where
  "scan_while P line j =
     (if j < length line \<and> P (line ! j) then scan_while P line (j + 1) else j)"
  by pat_completeness auto
termination
  by (relation "measure (\<lambda>(P, line, j). length line - j)") auto

text \<open>\<open>while (i < line.length && P(line[i])) { acc += line[i]; i++; }\<close>, returning the
  final \<open>i\<close> and the text collected.\<close>

function collect_while :: "(char \<Rightarrow> bool) \<Rightarrow> string \<Rightarrow> nat \<Rightarrow> string \<Rightarrow> nat \<times> string" where
  "collect_while P line i acc =
     (if i < length line \<and> P (line ! i)
      then collect_while P line (i + 1) (acc @ [line ! i])
      else (i, acc))"
  by pat_completeness auto
termination
  by (relation "measure (\<lambda>(P, line, i, acc). length line - i)") auto

declare scan_while.simps [simp del] collect_while.simps [simp del]

definition not_quote :: "char \<Rightarrow> bool" where
  "not_quote c \<longleftrightarrow> c \<noteq> dq"

definition is_value_char :: "char \<Rightarrow> bool" where
  "is_value_char c \<longleftrightarrow> c \<noteq> CHR '' '' \<and> c \<noteq> tab \<and> c \<noteq> dq"

subsection \<open>One iteration of the scanning loop of \<open>highlightLine\<close>\<close>

text \<open>
  The body of \<open>while (i < line.length)\<close>, run at an index \<open>i < line.length\<close>: the index
  the next iteration starts from, and the text this iteration appends to \<open>out\<close>. The
  branches are tested in the order of the source.
\<close>

definition hl_step :: "string \<Rightarrow> nat \<Rightarrow> nat \<times> string" where
  "hl_step line i =
     (let ch = line ! i in
      if ch = CHR '' '' \<or> ch = tab then (i + 1, [ch])
      else if ch = dq then
        (let j = scan_while not_quote line (i + 1)
         in (j + 1, span T_string (substring line i (j + 1)) False))
      else if substring line i (i + 3) = ''<->'' then (i + 3, span T_arrow ''<->'' True)
      else if substring line i (i + 2) = ''->'' then (i + 2, span T_arrow ''->'' True)
      else if ch = CHR ''{'' \<or> ch = CHR ''}'' then (i + 1, span T_plain [ch] True)
      else if ch = CHR '':'' then (i + 1, span T_gutter '':'' False)
      else if ch = CHR ''='' then
        (case collect_while is_value_char line (i + 1) [] of
           (i', val) \<Rightarrow>
             (i', span T_plain ''='' False @
                  (if val \<noteq> [] then
                     (if all_digits val then span T_number val False
                      else span T_propVal val False)
                   else [])))
      else
        (case collect_while is_word_char line i [] of
           (i', word) \<Rightarrow>
             if word \<noteq> [] then
               (i', if word = ''node'' \<or> word = ''container'' then span T_keyword word True
                    else if i' < length line \<and> line ! i' = CHR ''='' then span T_prop word False
                    else if all_digits word then span T_number word False
                    else span T_ident word False)
             else (i + 1, esc [ch])))"

subsection \<open>Facts about the inner loops, needed for the termination of the scan\<close>

lemma scan_while_stuck: "\<not> (j < length line \<and> P (line ! j)) \<Longrightarrow> scan_while P line j = j"
  by (subst scan_while.simps) auto

lemma scan_while_go:
  "j < length line \<Longrightarrow> P (line ! j) \<Longrightarrow> scan_while P line j = scan_while P line (j + 1)"
  by (subst scan_while.simps) auto

lemma scan_while_ge: "j \<le> scan_while P line j"
proof (induction P line j rule: scan_while.induct)
  case (1 P line j)
  show ?case
  proof (cases "j < length line \<and> P (line ! j)")
    case True
    with "1.IH" have "j + 1 \<le> scan_while P line (j + 1)" by simp
    with True show ?thesis by (simp add: scan_while_go)
  next
    case False
    then show ?thesis by (simp add: scan_while_stuck)
  qed
qed

lemma scan_while_gt: "j < length line \<Longrightarrow> P (line ! j) \<Longrightarrow> j < scan_while P line j"
  using scan_while_ge [of "j + 1" P line] by (simp add: scan_while_go)

lemma collect_while_scan:
  "collect_while P line i acc =
     (scan_while P line i, acc @ take (scan_while P line i - i) (drop i line))"
proof (induction P line i acc rule: collect_while.induct)
  case (1 P line i acc)
  show ?case
  proof (cases "i < length line \<and> P (line ! i)")
    case True
    have ge: "i + 1 \<le> scan_while P line (i + 1)" by (rule scan_while_ge)
    have sw: "scan_while P line i = scan_while P line (i + 1)"
      using True by (simp add: scan_while_go)
    have d: "drop i line = line ! i # drop (i + 1) line"
      using True by (simp add: Cons_nth_drop_Suc)
    from ge have k: "scan_while P line (i + 1) - i = Suc (scan_while P line (i + 1) - (i + 1))"
      by simp
    have "take (scan_while P line (i + 1) - i) (drop i line) =
          line ! i # take (scan_while P line (i + 1) - (i + 1)) (drop (i + 1) line)"
      by (simp only: k d take_Suc_Cons)
    moreover have "collect_while P line i acc = collect_while P line (i + 1) (acc @ [line ! i])"
      using True by (subst collect_while.simps) auto
    ultimately show ?thesis using True "1.IH" sw by simp
  next
    case False
    then have "scan_while P line i = i" by (simp add: scan_while_stuck)
    moreover have "collect_while P line i acc = (i, acc)"
      using False by (subst collect_while.simps) auto
    ultimately show ?thesis by simp
  qed
qed

lemma hl_step_progress: "i < length line \<Longrightarrow> i < fst (hl_step line i)"
proof -
  assume lt: "i < length line"
  have q: "i < scan_while not_quote line (i + 1) + 1"
    using scan_while_ge [of "i + 1" not_quote line] by simp
  have v: "i < scan_while is_value_char line (i + 1)"
    using scan_while_ge [of "i + 1" is_value_char line] by simp
  have w: "take (scan_while is_word_char line i - i) (drop i line) \<noteq> [] \<Longrightarrow>
           i < scan_while is_word_char line i"
    by (cases "scan_while is_word_char line i - i") auto
  show ?thesis
    using q v w by (simp add: hl_step_def Let_def collect_while_scan)
qed

subsection \<open>The scanning loop and \<open>highlightLine\<close>\<close>

function hl_loop :: "string \<Rightarrow> nat \<Rightarrow> string \<Rightarrow> string" where
  "hl_loop line i out =
     (if i < length line
      then hl_loop line (fst (hl_step line i)) (out @ snd (hl_step line i))
      else out)"
  by pat_completeness auto
termination
proof (relation "measure (\<lambda>(line, i, out). length line - i)")
  show "wf (measure (\<lambda>(line, i, out). length line - i))" by simp
next
  fix line :: string and i :: nat and out :: string
  assume "i < length line"
  then show "((line, fst (hl_step line i), out @ snd (hl_step line i)), (line, i, out))
             \<in> measure (\<lambda>(line, i, out). length line - i)"
    using hl_step_progress [of i line] by simp
qed

declare hl_loop.simps [simp del]

definition highlightLine :: "string \<Rightarrow> string" where
  "highlightLine line =
     (if line = [] then [newline]
      else
        (let trimmed = trimStart line in
         if startsWith trimmed ''//'' then
           (let indent = length line - length trimmed
            in replicate indent (CHR '' '') @ comment_open @ esc trimmed @ span_close)
         else hl_loop line 0 []))"

text \<open>The trace of the scanning loop from index \<open>i\<close>: for every iteration, the index it
  starts at and the text it appends.\<close>

function hl_tokens :: "string \<Rightarrow> nat \<Rightarrow> (nat \<times> string) list" where
  "hl_tokens line i =
     (if i < length line
      then (i, snd (hl_step line i)) # hl_tokens line (fst (hl_step line i))
      else [])"
  by pat_completeness auto
termination
proof (relation "measure (\<lambda>(line, i). length line - i)")
  show "wf (measure (\<lambda>(line, i). length line - i))" by simp
next
  fix line :: string and i :: nat
  assume "i < length line"
  then show "((line, fst (hl_step line i)), (line, i)) \<in> measure (\<lambda>(line, i). length line - i)"
    using hl_step_progress [of i line] by simp
qed

declare hl_tokens.simps [simp del]

subsection \<open>Notions used to state the properties of the highlighter\<close>

text \<open>The scanning loop with a bound on its number of iterations: \<open>None\<close> when the
  bound is used up before the loop is left.\<close>

primrec hl_run :: "nat \<Rightarrow> string \<Rightarrow> nat \<Rightarrow> string \<Rightarrow> string option" where
  "hl_run 0 line i out = (if i < length line then None else Some out)"
| "hl_run (Suc n) line i out =
     (if i < length line
      then hl_run n line (fst (hl_step line i)) (out @ snd (hl_step line i))
      else Some out)"

text \<open>What \<open>esc\<close> is meant to do to one character.\<close>

definition escape_char :: "char \<Rightarrow> string" where
  "escape_char c =
     (if c = CHR ''&'' then ''&amp;''
      else if c = CHR ''<'' then ''&lt;''
      else if c = CHR ''>'' then ''&gt;''
      else [c])"

text \<open>The colours \<open>highlightLine\<close> passes to \<open>span\<close>, and the fixed markup it can emit.\<close>

definition palette :: "string list" where
  "palette = [T_gutter, T_keyword, T_ident, T_string, T_number, T_arrow, T_prop,
              T_propVal, T_comment, T_plain]"

definition markup_tags :: "string list" where
  "markup_tags =
     span_close # comment_open # concat (map (\<lambda>c. [span_open c False, span_open c True]) palette)"

text \<open>\<open>escaped_markup src out\<close>: \<open>out\<close> is the text \<open>src\<close>, escaped piece by piece by \<open>esc\<close>,
  with fixed markup tags inserted between the pieces and nothing else.\<close>

inductive escaped_markup :: "string \<Rightarrow> string \<Rightarrow> bool" where
  em_nil: "escaped_markup [] []"
| em_text: "escaped_markup src out \<Longrightarrow> escaped_markup (src @ t) (out @ esc t)"
| em_tag: "escaped_markup src out \<Longrightarrow> m \<in> set markup_tags \<Longrightarrow> escaped_markup src (out @ m)"

text \<open>The number of double quotes in a text; an index \<open>i\<close> of a line is outside every
  quoted string when the line has an even number of them before \<open>i\<close>. An index is inside
  an attribute value when an \<open>=\<close> stands before it with no blank, tab or double quote in
  between.\<close>

definition quote_count :: "string \<Rightarrow> nat" where
  "quote_count s = length (filter (\<lambda>c. c = dq) s)"

definition in_value :: "string \<Rightarrow> nat \<Rightarrow> bool" where
  "in_value line i \<longleftrightarrow>
     (\<exists>e \<in> {0..<i}. line ! e = CHR ''='' \<and> (\<forall>k \<in> {e + 1..<i}. is_value_char (line ! k)))"

section \<open>JSON values and the browser's \<open>localStorage\<close>\<close>

text \<open>Decimal digits of a number, as \<open>String(n)\<close> gives them for a natural number.\<close>

definition digit_char :: "nat \<Rightarrow> char" where
  "digit_char d = char_of (48 + d)"

function show_nat :: "nat \<Rightarrow> string" where
  "show_nat n = (if n < 10 then [digit_char n] else show_nat (n div 10) @ [digit_char (n mod 10)])"
  by pat_completeness auto
termination
  by (relation "measure (\<lambda>n. n)") auto

declare show_nat.simps [simp del]

text \<open>
  A JSON value. An object is the list of its properties, in insertion order, with one
  entry for each name; \<open>v.f\<close> is \<open>get_field v f\<close>, with \<open>None\<close> for \<open>undefined\<close>.
\<close>

datatype json =
    JNull
  | JBool bool
  | JNum real
  | JStr string
  | JArr "json list"
  | JObj "(string \<times> json) list"

definition get_field :: "json \<Rightarrow> string \<Rightarrow> json option" where
  "get_field v f = (case v of JObj fs \<Rightarrow> map_of fs f | _ \<Rightarrow> None)"

text \<open>The own enumerable properties that the object spread \<open>{...v}\<close> copies.\<close>

definition index_keys :: "json list \<Rightarrow> (string \<times> json) list" where
  "index_keys xs = zip (map show_nat [0..<length xs]) xs"

definition spread :: "json \<Rightarrow> (string \<times> json) list" where
  "spread v =
     (case v of
        JObj fs \<Rightarrow> fs
      | JArr xs \<Rightarrow> index_keys xs
      | JStr s \<Rightarrow> index_keys (map (\<lambda>c. JStr [c]) s)
      | _ \<Rightarrow> [])"

text \<open>
  A text kept in \<open>localStorage\<close>. \<open>JSON.stringify\<close> and \<open>JSON.parse\<close> are the
  platform's: a text that is a JSON text is represented by the value it denotes, any
  other text (the empty one included) by itself. \<open>JSON.parse\<close> throws on the latter,
  which is \<open>None\<close> here.
\<close>

datatype item = JsonText json | Garbage string

definition JSON_stringify :: "json \<Rightarrow> item" where
  "JSON_stringify v = JsonText v"

definition JSON_parse :: "item \<Rightarrow> json option" where
  "JSON_parse raw = (case raw of JsonText v \<Rightarrow> Some v | Garbage s \<Rightarrow> None)"

definition truthy :: "item \<Rightarrow> bool" where
  "truthy raw = (case raw of JsonText v \<Rightarrow> True | Garbage s \<Rightarrow> s \<noteq> [])"

text \<open>\<open>localStorage\<close> as a key-value map whose keys can be enumerated:
  \<open>localStorage.key(i)\<close> is the key of the \<open>i\<close>-th entry.\<close>

type_synonym storage = "(string \<times> item) list"

definition getItem :: "storage \<Rightarrow> string \<Rightarrow> item option" where
  "getItem ls k = map_of ls k"

definition setItem :: "string \<Rightarrow> item \<Rightarrow> storage \<Rightarrow> storage" where
  "setItem k v ls = AList.update k v ls"

definition removeItem :: "string \<Rightarrow> storage \<Rightarrow> storage" where
  "removeItem k ls = AList.delete k ls"

definition storage_keys :: "storage \<Rightarrow> string list" where
  "storage_keys ls = map (\<lambda>i. fst (ls ! i)) [0..<length ls]"

section \<open>The project store (projectStore.ts)\<close>

definition STORAGE_PREFIX :: string where
  "STORAGE_PREFIX = ''cubegen-project:''"

text \<open>The \<open>SavedProject\<close> entry that \<open>saveProject\<close> builds; \<open>JSON.stringify\<close> leaves out
  the property \<open>code\<close> when it is \<open>undefined\<close>. \<open>now\<close> is \<open>new Date().toISOString()\<close>.\<close>

definition saved_entry :: "string \<Rightarrow> json \<Rightarrow> string option \<Rightarrow> string \<Rightarrow> json" where
  "saved_entry key diagramData code now =
     JObj ([(''key'', JStr key), (''diagramData'', diagramData)] @
           (case code of None \<Rightarrow> [] | Some c \<Rightarrow> [(''code'', JStr c)]) @
           [(''savedAt'', JStr now)])"

definition saveProject :: "string \<Rightarrow> string \<Rightarrow> json \<Rightarrow> string option \<Rightarrow> storage \<Rightarrow> storage" where
  "saveProject now key diagramData code ls =
     setItem (STORAGE_PREFIX @ key) (JSON_stringify (saved_entry key diagramData code now)) ls"

text \<open>\<open>loadProject\<close>: \<open>None\<close> is \<open>null\<close>, returned when nothing is stored, when the stored
  text is empty, when \<open>JSON.parse\<close> throws (the \<open>catch\<close>) and when the text is \<open>null\<close>.\<close>

definition loadProject :: "string \<Rightarrow> storage \<Rightarrow> json option" where
  "loadProject key ls =
     (case getItem ls (STORAGE_PREFIX @ key) of
        None \<Rightarrow> None
      | Some raw \<Rightarrow>
          if \<not> truthy raw then None
          else (case JSON_parse raw of
                  None \<Rightarrow> None
                | Some v \<Rightarrow> if v = JNull then None else Some v))"

text \<open>\<open>new Date().toISOString().replace(/[:.]/g, '-')\<close>\<close>

definition archive_timestamp :: "string \<Rightarrow> string" where
  "archive_timestamp now = map (\<lambda>c. if c = CHR '':'' \<or> c = CHR ''.'' then CHR ''-'' else c) now"

definition archive_key :: "string \<Rightarrow> string \<Rightarrow> string" where
  "archive_key now key = STORAGE_PREFIX @ ''archive:'' @ key @ '':'' @ archive_timestamp now"

definition archiveProject :: "string \<Rightarrow> string \<Rightarrow> storage \<Rightarrow> storage" where
  "archiveProject now key ls =
     (case getItem ls (STORAGE_PREFIX @ key) of
        None \<Rightarrow> ls
      | Some raw \<Rightarrow>
          if \<not> truthy raw then ls
          else removeItem (STORAGE_PREFIX @ key) (setItem (archive_key now key) raw ls))"

text \<open>\<open>`${STORAGE_PREFIX}archive:${playgroundKey}:`\<close>\<close>

definition archive_prefix :: "string \<Rightarrow> string" where
  "archive_prefix playgroundKey = STORAGE_PREFIX @ ''archive:'' @ playgroundKey @ '':''"

text \<open>
  The loop of \<open>listArchivedProjects\<close> over the keys of the storage. The whole loop
  stands in one \<open>try\<close>: when \<open>JSON.parse\<close> throws, the loop is left with the projects
  collected so far.
\<close>

fun archive_loop :: "storage \<Rightarrow> string \<Rightarrow> string list \<Rightarrow> json list \<Rightarrow> json list" where
  "archive_loop ls archivePrefix [] projects = projects"
| "archive_loop ls archivePrefix (k # ks) projects =
     (if k \<noteq> [] \<and> startsWith k archivePrefix then
        (case getItem ls k of
           None \<Rightarrow> archive_loop ls archivePrefix ks projects
         | Some raw \<Rightarrow>
             if truthy raw then
               (case JSON_parse raw of
                  None \<Rightarrow> projects
                | Some parsed \<Rightarrow>
                    archive_loop ls archivePrefix ks
                      (projects @ [JObj (AList.update ''storageKey'' (JStr k) (spread parsed))]))
             else archive_loop ls archivePrefix ks projects)
      else archive_loop ls archivePrefix ks projects)"

text \<open>\<open>Array.prototype.sort\<close> with a comparator, as a stable insertion sort.\<close>

fun insert_by :: "('a \<Rightarrow> 'a \<Rightarrow> int) \<Rightarrow> 'a \<Rightarrow> 'a list \<Rightarrow> 'a list" where
  "insert_by cmp a [] = [a]"
| "insert_by cmp a (b # bs) = (if cmp a b \<le> 0 then a # b # bs else b # insert_by cmp a bs)"

definition sort_by :: "('a \<Rightarrow> 'a \<Rightarrow> int) \<Rightarrow> 'a list \<Rightarrow> 'a list" where
  "sort_by cmp xs = foldr (insert_by cmp) xs []"

text \<open>The comparator \<open>(a, b) => new Date(b.savedAt).getTime() - new Date(a.savedAt).getTime()\<close>.
  \<open>date_time\<close> stands for \<open>new Date(v).getTime()\<close>, \<open>None\<close> for \<open>NaN\<close>; a comparator
  result \<open>NaN\<close> counts as 0.\<close>

definition newest_first :: "(json option \<Rightarrow> int option) \<Rightarrow> json \<Rightarrow> json \<Rightarrow> int" where
  "newest_first date_time a b =
     (case (date_time (get_field b ''savedAt''), date_time (get_field a ''savedAt'')) of
        (Some tb, Some ta) \<Rightarrow> tb - ta
      | _ \<Rightarrow> 0)"

definition listArchivedProjects ::
  "(json option \<Rightarrow> int option) \<Rightarrow> string \<Rightarrow> storage \<Rightarrow> json list" where
  "listArchivedProjects date_time playgroundKey ls =
     sort_by (newest_first date_time)
       (archive_loop ls (archive_prefix playgroundKey) (storage_keys ls) [])"

text \<open>Every text stored under the archive prefix of a key can be read: it is a JSON
  text, or empty.\<close>

definition archives_readable :: "string \<Rightarrow> storage \<Rightarrow> bool" where
  "archives_readable playgroundKey ls \<longleftrightarrow>
     (\<forall>(k, raw) \<in> set ls.
        startsWith k (archive_prefix playgroundKey) \<longrightarrow> \<not> truthy raw \<or> JSON_parse raw \<noteq> None)"

section \<open>The icon lookup (iconConstants.tsx)\<close>

text \<open>A \<open>React.ReactNode\<close>: an element, or a string.\<close>

datatype 'e react_node = Element 'e | TextNode string

text \<open>The module's variables: \<open>CLOUD_ICONS_LOADED\<close>, \<open>CLOUD_ICONS_CACHE\<close>, and whether
  \<open>cloudIconsLoadPromise\<close> is set.\<close>

record icon_state =
  CLOUD_ICONS_LOADED :: bool
  CLOUD_ICONS_CACHE :: "string \<rightharpoonup> string"
  load_pending :: bool

definition initial_icons :: icon_state where
  "initial_icons = \<lparr>CLOUD_ICONS_LOADED = False, CLOUD_ICONS_CACHE = Map.empty, load_pending = False\<rparr>"

text \<open>\<open>loadCloudIcons\<close> up to its first \<open>await\<close>: it starts the import once and returns.\<close>

definition loadCloudIcons :: "icon_state \<Rightarrow> icon_state" where
  "loadCloudIcons st =
     (if CLOUD_ICONS_LOADED st then st
      else if load_pending st then st
      else st\<lparr>load_pending := True\<rparr>)"

text \<open>The import settling, later: with the library, or with an error (\<open>None\<close>).\<close>

definition import_settled :: "(string \<rightharpoonup> string) option \<Rightarrow> icon_state \<Rightarrow> icon_state" where
  "import_settled lib st =
     (case lib of
        Some icons \<Rightarrow> st\<lparr>CLOUD_ICONS_CACHE := icons, CLOUD_ICONS_LOADED := True\<rparr>
      | None \<Rightarrow> st\<lparr>CLOUD_ICONS_LOADED := True\<rparr>)"

text \<open>
  The \<open>get\<close> trap of the proxy \<open>ICONS\<close>: the value returned (\<open>None\<close> for \<open>undefined\<close>)
  and the module's state after the call. \<open>BASE_ICONS\<close> (baseIcons.tsx) and
  \<open>IconType.Generic\<close> (types.ts) are parameters: \<open>BASE_ICONS prop\<close> is
  \<open>Some (BASE_ICONS[prop])\<close> when \<open>prop in BASE_ICONS\<close>, and \<open>None\<close> otherwise.
\<close>

definition ICONS_get ::
  "(string \<rightharpoonup> 'e react_node) \<Rightarrow> string \<Rightarrow> icon_state \<Rightarrow> string \<Rightarrow>
   'e react_node option \<times> icon_state" where
  "ICONS_get BASE_ICONS Generic st prop =
     (if BASE_ICONS prop \<noteq> None then (BASE_ICONS prop, st)
      else if CLOUD_ICONS_LOADED st \<and> CLOUD_ICONS_CACHE st prop \<noteq> None
        then (map_option TextNode (CLOUD_ICONS_CACHE st prop), st)
      else (BASE_ICONS Generic, if \<not> CLOUD_ICONS_LOADED st then loadCloudIcons st else st))"

section \<open>The Generate action of the code playground and the rows of the editor\<close>

text \<open>\<open>ParseError\<close> and the result of \<open>parseCubeGenDSL\<close>, as \<open>handleGenerate\<close> reads them
  (\<open>result.success\<close>, \<open>result.data\<close>, \<open>result.errors\<close>). The diagram document is opaque
  here.\<close>

record ParseError =
  line :: nat
  message :: string

record 'd ParseResult =
  success :: bool
  data :: "'d option"
  errors :: "ParseError list"

text \<open>The state of the component that \<open>handleGenerate\<close> reads and sets; \<open>fit_scheduled\<close>
  records the \<open>setTimeout(() => handleFitToScreen(), 100)\<close>.\<close>

record 'd playground =
  code :: string
  parseErrors :: "ParseError list"
  history :: "'d option list"
  historyIndex :: nat
  selectedIds :: "string list"
  error_banner :: "string option"
  successMessage :: "string option"
  fit_scheduled :: bool

text \<open>\<open>`Syntax error on line ${errors[0]?.line}: ${errors[0]?.message}`\<close>\<close>

definition syntax_error_text :: "ParseError list \<Rightarrow> string" where
  "syntax_error_text es =
     ''Syntax error on line '' @
     (case es of [] \<Rightarrow> ''undefined'' | e # _ \<Rightarrow> show_nat (line e)) @ '': '' @
     (case es of [] \<Rightarrow> ''undefined'' | e # _ \<Rightarrow> message e)"

definition handleGenerate ::
  "(string \<Rightarrow> 'd ParseResult) \<Rightarrow> 'd playground \<Rightarrow> 'd playground" where
  "handleGenerate parseCubeGenDSL st =
     (if trim (code st) = [] then st\<lparr>error_banner := Some ''Please enter some code.''\<rparr>
      else
        (let result = parseCubeGenDSL (code st) in
         if success result \<and> data result \<noteq> None then
           st\<lparr>error_banner := None, parseErrors := [],
              history := [data result], historyIndex := 0, selectedIds := [],
              successMessage := Some ''Diagram Generated!'', fit_scheduled := True\<rparr>
         else
           st\<lparr>parseErrors := errors result,
              error_banner := Some (syntax_error_text (errors result))\<rparr>))"

text \<open>The prop \<open>errorLine={parseErrors[0]?.line}\<close> passed to the editor.\<close>

definition errorLine_prop :: "'d playground \<Rightarrow> nat option" where
  "errorLine_prop st = (case parseErrors st of [] \<Rightarrow> None | e # _ \<Rightarrow> Some (line e))"

text \<open>\<open>value.split('\n')\<close>: the loop over the characters, with the current piece.\<close>

fun split_from :: "string \<Rightarrow> string \<Rightarrow> string list" where
  "split_from cur [] = [cur]"
| "split_from cur (c # cs) =
     (if c = newline then cur # split_from [] cs else split_from (cur @ [c]) cs)"

definition split_lines :: "string \<Rightarrow> string list" where
  "split_lines s = split_from [] s"

text \<open>One row of the mirror, for the line of index \<open>idx\<close>: its number in the gutter,
  its background, the colour of the gutter, whether the error marker is shown, and the
  markup of the line.\<close>

record editor_row =
  lineNum :: nat
  background :: string
  gutter_color :: string
  marker :: bool
  innerHTML :: string

definition T_bgActive :: string where "T_bgActive = ''#44475a50''"
definition T_bgError :: string where "T_bgError = ''#ff555520''"
definition T_gutterAct :: string where "T_gutterAct = ''#f8f8f2''"

definition render_row :: "nat \<Rightarrow> bool \<Rightarrow> nat option \<Rightarrow> nat \<Rightarrow> string \<Rightarrow> editor_row" where
  "render_row activeLine isFocused errorLine idx html =
     (let lineNum = idx + 1;
          isActive = (lineNum = activeLine \<and> isFocused);
          isError = (Some lineNum = errorLine)
      in \<lparr>lineNum = lineNum,
          background = (if isError then T_bgError else if isActive then T_bgActive
                        else ''transparent''),
          gutter_color = (if isError then ''#ff5555'' else if isActive then T_gutterAct
                          else T_gutter),
          marker = isError,
          innerHTML = (if html = [] then '' '' else html)\<rparr>)"

definition editor_rows :: "string \<Rightarrow> nat \<Rightarrow> bool \<Rightarrow> nat option \<Rightarrow> editor_row list" where
  "editor_rows v activeLine isFocused errorLine =
     (let highlightedLines = map highlightLine (split_lines v)
      in map (\<lambda>idx. render_row activeLine isFocused errorLine idx (highlightedLines ! idx))
           [0..<length highlightedLines])"

text \<open>
  Modelled from the spec: the contract of \<open>parseCubeGenDSL\<close> (utils/cubegenDSL, not among
  the sources) that \<open>handleGenerate\<close> relies on: "if the error list is non-empty after
  resolution, the function signals failure".
\<close>

definition signals_failure :: "'d ParseResult \<Rightarrow> bool" where
  "signals_failure result \<longleftrightarrow> (errors result \<noteq> [] \<longrightarrow> \<not> success result)"

section \<open>The DSL parser, as the specification describes it\<close>

text \<open>
  Modelled from the spec: the parser \<open>parseCubeGenDSL\<close> (utils/cubegenDSL), which is not
  among the sources. The model follows sections 3 and 4 of the specification: the line
  classifier (4.1), the rule for duplicate identifiers (4.2), the resolver (4.4) and the
  top-level function (4.5). What the specification leaves open is a parameter: how one
  declaration line and one link line are split into their parts (4.2, 4.3: the error
  message, or the statement), the texts of the messages that name an identifier, and
  the default title.
\<close>

datatype line_kind = Blank | Comment | DeclarationLine | LinkLine | UnknownLine

text \<open>Modelled from the spec: "the line contains the substring \<open>->\<close> or \<open><->\<close> outside of any
  quoted string"; the flag says whether the scan is inside a quoted string.\<close>

fun arrow_outside_quotes :: "bool \<Rightarrow> string \<Rightarrow> bool" where
  "arrow_outside_quotes q [] = False"
| "arrow_outside_quotes q [c] = False"
| "arrow_outside_quotes q (c # d # cs) =
     (if c = dq then arrow_outside_quotes (\<not> q) (d # cs)
      else if \<not> q \<and> c = CHR ''-'' \<and> d = CHR ''>'' then True
      else arrow_outside_quotes q (d # cs))"

definition first_token :: "string \<Rightarrow> string" where
  "first_token s = takeWhile (\<lambda>c. \<not> is_js_space c) s"

text \<open>Modelled from the spec (4.1): a line is classified on its trimmed text.\<close>

definition classify_line :: "string \<Rightarrow> line_kind" where
  "classify_line raw =
     (let t = trim raw in
      if t = [] then Blank
      else if startsWith t ''//'' then Comment
      else if first_token t = ''node'' \<or> first_token t = ''container'' then DeclarationLine
      else if arrow_outside_quotes False t then LinkLine
      else UnknownLine)"

datatype decl_kind = NodeKind | ContainerKind

text \<open>Modelled from the spec (3): a declaration, a link statement and the diagram
  document.\<close>

record Declaration =
  kind :: decl_kind
  ident :: string
  display_label :: string
  icon :: "string option"
  x_pos :: "real option"
  y_pos :: "real option"
  width :: "real option"
  height :: "real option"
  parent :: "string option"

record LinkStatement =
  source :: string
  target :: string
  bidirectional :: bool
  link_label :: "string option"

record DiagramDocument =
  title :: string
  nodes :: "Declaration list"
  containers :: "Declaration list"
  links :: "LinkStatement list"

datatype ParseOutcome = Success DiagramDocument | Failure "ParseError list"

record grammar =
  parse_declaration :: "string \<Rightarrow> string + Declaration"
  parse_link :: "string \<Rightarrow> string + LinkStatement"
  duplicate_message :: "string \<Rightarrow> string"
  unresolved_message :: "string \<Rightarrow> string"
  default_title :: string

text \<open>Modelled from the spec (2, 4.1 to 4.3): the state of the scan: the declarations
  kept, the links accepted with their line numbers, and the errors collected so far.\<close>

record scan_state =
  declarations :: "Declaration list"
  accepted_links :: "(nat \<times> LinkStatement) list"
  collected :: "ParseError list"

definition add_error :: "nat \<Rightarrow> string \<Rightarrow> scan_state \<Rightarrow> scan_state" where
  "add_error n msg st = st\<lparr>collected := collected st @ [\<lparr>line = n, message = msg\<rparr>]\<rparr>"

text \<open>Modelled from the spec: one line of the scan. Blank lines and comments are dropped;
  an unknown line gives the error "unrecognized statement"; a malformed statement gives
  its error and is dropped; of two declarations with one identifier the first is kept
  and the later one is an error; a link is accepted without looking at its ends.\<close>

definition scan_line :: "grammar \<Rightarrow> nat \<Rightarrow> string \<Rightarrow> scan_state \<Rightarrow> scan_state" where
  "scan_line g n raw st =
     (case classify_line raw of
        Blank \<Rightarrow> st
      | Comment \<Rightarrow> st
      | UnknownLine \<Rightarrow> add_error n ''unrecognized statement'' st
      | DeclarationLine \<Rightarrow>
          (case parse_declaration g (trim raw) of
             Inl msg \<Rightarrow> add_error n msg st
           | Inr d \<Rightarrow>
               if ident d \<in> set (map ident (declarations st))
               then add_error n (duplicate_message g (ident d)) st
               else st\<lparr>declarations := declarations st @ [d]\<rparr>)
      | LinkLine \<Rightarrow>
          (case parse_link g (trim raw) of
             Inl msg \<Rightarrow> add_error n msg st
           | Inr l \<Rightarrow> st\<lparr>accepted_links := accepted_links st @ [(n, l)]\<rparr>))"

text \<open>Modelled from the spec: the lines of the source with their 1-based numbers, and
  the scan over them.\<close>

definition numbered_lines :: "string \<Rightarrow> (nat \<times> string) list" where
  "numbered_lines src = zip [1..<Suc (length (split_lines src))] (split_lines src)"

definition scan_document :: "grammar \<Rightarrow> string \<Rightarrow> scan_state" where
  "scan_document g src =
     foldl (\<lambda>st (n, raw). scan_line g n raw st)
       \<lparr>declarations = [], accepted_links = [], collected = []\<rparr> (numbered_lines src)"

text \<open>Modelled from the spec (4.4): the resolver. A link whose source or target is not
  a declared identifier gives one error for each missing identifier, at the line of
  the link, and is left out of the result.\<close>

fun resolve_links ::
  "grammar \<Rightarrow> string list \<Rightarrow> (nat \<times> LinkStatement) list \<Rightarrow> ParseError list \<times> LinkStatement list" where
  "resolve_links g known [] = ([], [])"
| "resolve_links g known ((n, l) # rest) =
     (let missing = filter (\<lambda>i. i \<notin> set known) [source l, target l];
          (es, ls) = resolve_links g known rest
      in if missing = [] then (es, l # ls)
         else (map (\<lambda>i. \<lparr>line = n, message = unresolved_message g i\<rparr>) missing @ es, ls))"

text \<open>Modelled from the spec: the errors in the order in which they are detected: those
  of the scan, then those of the resolver.\<close>

definition detected_errors :: "grammar \<Rightarrow> string \<Rightarrow> ParseError list" where
  "detected_errors g src =
     (let st = scan_document g src
      in collected st @ fst (resolve_links g (map ident (declarations st)) (accepted_links st)))"

text \<open>Modelled from the spec (4.5): the top-level function. With no error the result is
  the document; otherwise it is all the errors, in ascending order of their lines
  (errors of one line in the order of their detection), and no document.\<close>

definition parseCubeGenDSL :: "grammar \<Rightarrow> string \<Rightarrow> ParseOutcome" where
  "parseCubeGenDSL g src =
     (let st = scan_document g src;
          resolved = resolve_links g (map ident (declarations st)) (accepted_links st)
      in if detected_errors g src = [] then
           Success \<lparr>title = default_title g,
                    nodes = filter (\<lambda>d. kind d = NodeKind) (declarations st),
                    containers = filter (\<lambda>d. kind d = ContainerKind) (declarations st),
                    links = snd resolved\<rparr>
         else Failure (sort_key line (detected_errors g src)))"

definition returned_errors :: "ParseOutcome \<Rightarrow> ParseError list" where
  "returned_errors r = (case r of Success doc \<Rightarrow> [] | Failure es \<Rightarrow> es)"

section \<open>Sample inputs\<close>

text \<open>A storage with two saved projects; a playground and a failing parse result.\<close>

definition sample_storage :: storage where
  "sample_storage =
     saveProject ''2026-01-01T10:00:00.000Z'' ''visual-playground'' (JObj [(''nodes'', JArr [])]) None
       (saveProject ''2026-01-01T09:00:00.000Z'' ''code-playground''
          (JObj [(''nodes'', JArr [JStr ''a''])]) (Some ''node a'') [])"

definition sample_playground :: "unit playground" where
  "sample_playground =
     \<lparr>code = ''node a: x'' @ [newline] @ ''a -> b'', parseErrors = [],
      history = [None], historyIndex = 0, selectedIds = [''n1''],
      error_banner = None, successMessage = None, fit_scheduled = False\<rparr>"

definition sample_failure :: "unit ParseResult" where
  "sample_failure =
     \<lparr>success = False, data = None,
      errors = [\<lparr>line = 2, message = ''unresolved b''\<rparr>, \<lparr>line = 1, message = ''missing label''\<rparr>]\<rparr>"

text \<open>A grammar and a document for examples: a declaration is \<open>node\<close>, a blank and the
  identifier; a link is the source, \<open>->\<close> and the target, with blanks around the arrow.\<close>

definition sample_grammar :: grammar where
  "sample_grammar =
     \<lparr>parse_declaration = (\<lambda>t. Inr \<lparr>kind = NodeKind, ident = drop 5 t, display_label = drop 5 t,
          icon = None, x_pos = None, y_pos = None, width = None, height = None, parent = None\<rparr>),
      parse_link = (\<lambda>t. Inr \<lparr>source = takeWhile (\<lambda>c. c \<noteq> CHR '' '') t,
          target = rev (takeWhile (\<lambda>c. c \<noteq> CHR '' '') (rev t)),
          bidirectional = False, link_label = None\<rparr>),
      duplicate_message = (\<lambda>i. ''duplicate identifier '' @ i),
      unresolved_message = (\<lambda>i. ''unresolved reference '' @ i),
      default_title = ''Untitled''\<rparr>"

definition sample_document :: string where
  "sample_document =
     ''node a'' @ [newline] @ [newline] @ ''x -> a'' @ [newline] @ ''// note'' @ [newline] @
     [newline] @ [newline] @ ''???'' @ [newline] @ [newline] @ [newline] @ ''a -> y''"

section \<open>Properties of the syntax highlighter\<close>

subsection \<open>The scanning loops\<close>

lemma hl_loop_stop: "\<not> i < length lin \<Longrightarrow> hl_loop lin i out = out"
  by (subst hl_loop.simps) simp

lemma hl_loop_go:
  "i < length lin \<Longrightarrow>
   hl_loop lin i out = hl_loop lin (fst (hl_step lin i)) (out @ snd (hl_step lin i))"
  by (subst hl_loop.simps) simp

lemma hl_tokens_stop: "\<not> i < length lin \<Longrightarrow> hl_tokens lin i = []"
  by (subst hl_tokens.simps) simp

lemma hl_tokens_go:
  "i < length lin \<Longrightarrow>
   hl_tokens lin i = (i, snd (hl_step lin i)) # hl_tokens lin (fst (hl_step lin i))"
  by (subst hl_tokens.simps) simp

lemma hl_run_enough:
  "length lin - i \<le> n \<Longrightarrow> hl_run n lin i out = Some (hl_loop lin i out)"
proof (induction n arbitrary: i out)
  case 0
  then show ?case by (simp add: hl_loop_stop)
next
  case (Suc n)
  show ?case
  proof (cases "i < length lin")
    case True
    then have "i < fst (hl_step lin i)" by (rule hl_step_progress)
    with Suc.prems True have "length lin - fst (hl_step lin i) \<le> n" by simp
    then have "hl_run n lin (fst (hl_step lin i)) (out @ snd (hl_step lin i)) =
               Some (hl_loop lin (fst (hl_step lin i)) (out @ snd (hl_step lin i)))"
      by (rule Suc.IH)
    with True show ?thesis by (simp add: hl_loop_go)
  next
    case False
    then show ?thesis by (simp add: hl_loop_stop)
  qed
qed

lemma hl_loop_tokens: "hl_loop lin i out = out @ concat (map snd (hl_tokens lin i))"
proof (induction lin i out rule: hl_loop.induct)
  case (1 lin i out)
  show ?case
  proof (cases "i < length lin")
    case True
    with "1.IH" show ?thesis by (simp add: hl_loop_go hl_tokens_go)
  next
    case False
    then show ?thesis by (simp add: hl_loop_stop hl_tokens_stop)
  qed
qed

lemma scan_while_le: "j \<le> length lin \<Longrightarrow> scan_while P lin j \<le> length lin"
proof (induction P lin j rule: scan_while.induct)
  case (1 P lin j)
  show ?case
  proof (cases "j < length lin \<and> P (lin ! j)")
    case True
    with "1.IH" have "scan_while P lin (j + 1) \<le> length lin" by simp
    with True show ?thesis by (simp add: scan_while_go)
  next
    case False
    with "1.prems" show ?thesis by (simp add: scan_while_stuck)
  qed
qed

lemma scan_while_holds:
  "j \<le> k \<Longrightarrow> k < scan_while P lin j \<Longrightarrow> k < length lin \<and> P (lin ! k)"
proof (induction P lin j rule: scan_while.induct)
  case (1 P lin j)
  show ?case
  proof (cases "j < length lin \<and> P (lin ! j)")
    case True
    show ?thesis
    proof (cases "k = j")
      case True
      with \<open>j < length lin \<and> P (lin ! j)\<close> show ?thesis by simp
    next
      case False
      with "1.prems" have "j + 1 \<le> k" by simp
      moreover from "1.prems" True have "k < scan_while P lin (j + 1)"
        by (simp add: scan_while_go)
      ultimately show ?thesis using "1.IH" True by simp
    qed
  next
    case False
    with "1.prems" show ?thesis by (simp add: scan_while_stuck)
  qed
qed

lemma scan_while_end:
  "scan_while P lin j < length lin \<Longrightarrow> \<not> P (lin ! scan_while P lin j)"
proof (induction P lin j rule: scan_while.induct)
  case (1 P lin j)
  show ?case
  proof (cases "j < length lin \<and> P (lin ! j)")
    case True
    with "1.prems" "1.IH" show ?thesis by (simp add: scan_while_go)
  next
    case False
    with "1.prems" show ?thesis by (simp add: scan_while_stuck)
  qed
qed

lemma scan_while_all:
  "j \<le> length lin \<Longrightarrow> \<forall>c \<in> set (drop j lin). P c \<Longrightarrow> scan_while P lin j = length lin"
proof -
  assume j: "j \<le> length lin" and all: "\<forall>c \<in> set (drop j lin). P c"
  have le: "scan_while P lin j \<le> length lin" using j by (rule scan_while_le)
  have ge: "j \<le> scan_while P lin j" by (rule scan_while_ge)
  show ?thesis
  proof (rule ccontr)
    assume "scan_while P lin j \<noteq> length lin"
    with le have lt: "scan_while P lin j < length lin" by simp
    then have "\<not> P (lin ! scan_while P lin j)" by (rule scan_while_end)
    moreover have "lin ! scan_while P lin j \<in> set (drop j lin)"
    proof -
      have "scan_while P lin j - j < length (drop j lin)" using lt ge by simp
      then have "drop j lin ! (scan_while P lin j - j) \<in> set (drop j lin)"
        by (rule nth_mem)
      moreover have "drop j lin ! (scan_while P lin j - j) = lin ! scan_while P lin j"
        using lt ge by simp
      ultimately show ?thesis by simp
    qed
    ultimately show False using all by blast
  qed
qed

lemma substring_slice: "a \<le> b \<Longrightarrow> substring s a b = take (b - a) (drop a s)"
proof (cases "a < length s")
  case True
  assume "a \<le> b"
  with True show ?thesis
    by (simp add: substring_def Let_def min_def max_def)
next
  case False
  assume "a \<le> b"
  with False show ?thesis by (simp add: substring_def Let_def min_def max_def)
qed

lemma hl_step_unterminated:
  assumes "i < length lin" "lin ! i = dq" "dq \<notin> set (drop (i + 1) lin)"
  shows "hl_step lin i = (length lin + 1, span T_string (drop i lin) False)"
proof -
  have "scan_while not_quote lin (i + 1) = length lin"
    using assms by (intro scan_while_all) (auto simp: not_quote_def)
  then show ?thesis
    using assms by (simp add: hl_step_def Let_def substring_slice dq_def tab_def)
qed

subsection \<open>Escaping\<close>

lemma replace_all_Nil: "replace_all c r [] = []"
  by (simp add: replace_all_def)

lemma replace_all_append: "replace_all c r (a @ b) = replace_all c r a @ replace_all c r b"
  by (simp add: replace_all_def)

lemma replace_all_Cons: "replace_all c r (x # s) = (if x = c then r else [x]) @ replace_all c r s"
  by (simp add: replace_all_def)

lemma esc_Nil: "esc [] = []"
  by (simp add: esc_def replace_all_Nil)

lemma esc_Cons: "esc (c # s) = escape_char c @ esc s"
  by (simp add: esc_def escape_char_def replace_all_Cons replace_all_append replace_all_Nil)

lemma esc_concat: "esc s = concat (map escape_char s)"
  by (induction s) (simp_all add: esc_Nil esc_Cons)

lemma esc_append: "esc (a @ b) = esc a @ esc b"
  by (simp add: esc_concat)

lemma esc_no_angle: "CHR ''<'' \<notin> set (esc s) \<and> CHR ''>'' \<notin> set (esc s)"
  by (induction s) (auto simp: esc_Nil esc_Cons escape_char_def)

lemma take_split: "a \<le> b \<Longrightarrow> take b s = take a s @ take (b - a) (drop a s)"
  using take_add [of a "b - a" s] by simp

lemma span_open_markup: "c \<in> set palette \<Longrightarrow> span_open c b \<in> set markup_tags"
  by (cases b) (auto simp: markup_tags_def)

lemma span_close_markup: "span_close \<in> set markup_tags"
  by (simp add: markup_tags_def)

lemma em_span:
  assumes "escaped_markup src out" "c \<in> set palette"
  shows "escaped_markup (src @ t) (out @ span c t b)"
proof -
  have "escaped_markup src (out @ span_open c b)"
    using assms(1) span_open_markup [OF assms(2)] by (rule em_tag)
  then have "escaped_markup (src @ t) ((out @ span_open c b) @ esc t)" by (rule em_text)
  then have "escaped_markup (src @ t) (((out @ span_open c b) @ esc t) @ span_close)"
    using span_close_markup by (rule em_tag)
  then show ?thesis by (simp add: span_def)
qed

lemma hl_step_cases:
  assumes lt: "i < length lin"
  obtains
    (plain) i' t where "hl_step lin i = (i', esc t)" "take i' lin = take i lin @ t"
  | (one) c b i' t where "hl_step lin i = (i', span c t b)" "c \<in> set palette"
      "take i' lin = take i lin @ t"
  | (two) c i' t where "hl_step lin i = (i', span T_plain ''='' False @ span c t False)"
      "c \<in> set palette" "take i' lin = (take i lin @ ''='') @ t"
proof -
  let ?ch = "lin ! i"
  have one_char: "take (i + 1) lin = take i lin @ [?ch]"
    using lt by (simp add: take_Suc_conv_app_nth)
  have slice: "\<And>i'. i \<le> i' \<Longrightarrow> take i' lin = take i lin @ substring lin i i'"
    by (simp add: substring_slice take_split)
  show ?thesis
  proof (cases "?ch = CHR '' '' \<or> ?ch = tab")
    case True
    then have "hl_step lin i = (i + 1, esc [?ch])"
      by (auto simp: hl_step_def Let_def esc_Cons esc_Nil escape_char_def tab_def)
    then show ?thesis using one_char by (rule plain)
  next
    case ws: False
    show ?thesis
    proof (cases "?ch = dq")
      case True
      let ?j = "scan_while not_quote lin (i + 1)"
      have "hl_step lin i = (?j + 1, span T_string (substring lin i (?j + 1)) False)"
        using ws True by (simp add: hl_step_def Let_def)
      moreover have "T_string \<in> set palette" by (simp add: palette_def)
      moreover have "take (?j + 1) lin = take i lin @ substring lin i (?j + 1)"
        using scan_while_ge [of "i + 1" not_quote lin] by (intro slice) simp
      ultimately show ?thesis by (rule one)
    next
      case nq: False
      show ?thesis
      proof (cases "substring lin i (i + 3) = ''<->''")
        case True
        then have "hl_step lin i = (i + 3, span T_arrow ''<->'' True)"
          using ws nq by (simp add: hl_step_def Let_def)
        moreover have "T_arrow \<in> set palette" by (simp add: palette_def)
        moreover have "take (i + 3) lin = take i lin @ ''<->''"
          using slice [of "i + 3"] True by simp
        ultimately show ?thesis by (rule one)
      next
        case n3: False
        show ?thesis
        proof (cases "substring lin i (i + 2) = ''->''")
          case True
          then have "hl_step lin i = (i + 2, span T_arrow ''->'' True)"
            using ws nq n3 by (simp add: hl_step_def Let_def)
          moreover have "T_arrow \<in> set palette" by (simp add: palette_def)
          moreover have "take (i + 2) lin = take i lin @ ''->''"
            using slice [of "i + 2"] True by simp
          ultimately show ?thesis by (rule one)
        next
          case n2: False
          show ?thesis
          proof (cases "?ch = CHR ''{'' \<or> ?ch = CHR ''}''")
            case True
            then have "hl_step lin i = (i + 1, span T_plain [?ch] True)"
              using ws nq n3 n2 by (simp add: hl_step_def Let_def)
            moreover have "T_plain \<in> set palette" by (simp add: palette_def)
            ultimately show ?thesis using one_char by (rule one)
          next
            case nb: False
            show ?thesis
            proof (cases "?ch = CHR '':''")
              case True
              then have "hl_step lin i = (i + 1, span T_gutter [?ch] False)"
                using ws nq n3 n2 nb by (simp add: hl_step_def Let_def)
              moreover have "T_gutter \<in> set palette" by (simp add: palette_def)
              ultimately show ?thesis using one_char by (rule one)
            next
              case nc: False
              show ?thesis
              proof (cases "?ch = CHR ''=''")
                case True
                let ?i' = "scan_while is_value_char lin (i + 1)"
                let ?val = "take (?i' - (i + 1)) (drop (i + 1) lin)"
                have ge: "i + 1 \<le> ?i'" by (rule scan_while_ge)
                have tk: "take ?i' lin = (take i lin @ ''='') @ ?val"
                  using take_split [OF ge, of lin] one_char True by simp
                show ?thesis
                proof (cases "?val = []")
                  case True
                  have "hl_step lin i = (?i', span T_plain [?ch] False)"
                    using ws nq n3 n2 nb nc \<open>?ch = CHR ''=''\<close> True
                    by (simp add: hl_step_def Let_def collect_while_scan)
                  moreover have "T_plain \<in> set palette" by (simp add: palette_def)
                  moreover have "take ?i' lin = take i lin @ [?ch]"
                    using tk True \<open>?ch = CHR ''=''\<close> by simp
                  ultimately show ?thesis by (rule one)
                next
                  case False
                  let ?c = "if all_digits ?val then T_number else T_propVal"
                  have "hl_step lin i = (?i', span T_plain ''='' False @ span ?c ?val False)"
                    using ws nq n3 n2 nb nc \<open>?ch = CHR ''=''\<close> False
                    by (simp add: hl_step_def Let_def collect_while_scan)
                  moreover have "?c \<in> set palette" by (simp add: palette_def)
                  ultimately show ?thesis using tk by (rule two)
                qed
              next
                case ne: False
                let ?i' = "scan_while is_word_char lin i"
                let ?word = "take (?i' - i) (drop i lin)"
                have ge: "i \<le> ?i'" by (rule scan_while_ge)
                have tk: "take ?i' lin = take i lin @ ?word"
                  using take_split [OF ge, of lin] by simp
                show ?thesis
                proof (cases "?word = []")
                  case True
                  then have "hl_step lin i = (i + 1, esc [?ch])"
                    using ws nq n3 n2 nb nc ne
                    by (simp add: hl_step_def Let_def collect_while_scan)
                  then show ?thesis using one_char by (rule plain)
                next
                  case False
                  let ?c = "if ?word = ''node'' \<or> ?word = ''container'' then T_keyword
                            else if ?i' < length lin \<and> lin ! ?i' = CHR ''='' then T_prop
                            else if all_digits ?word then T_number else T_ident"
                  let ?b = "?word = ''node'' \<or> ?word = ''container''"
                  have "hl_step lin i = (?i', span ?c ?word ?b)"
                    using ws nq n3 n2 nb nc ne False
                    by (simp add: hl_step_def Let_def collect_while_scan)
                  moreover have "?c \<in> set palette" by (simp add: palette_def)
                  ultimately show ?thesis using tk by (rule one)
                qed
              qed
            qed
          qed
        qed
      qed
    qed
  qed
qed

lemma hl_step_escaped:
  assumes "i < length lin" "escaped_markup (take i lin) out"
  shows "escaped_markup (take (fst (hl_step lin i)) lin) (out @ snd (hl_step lin i))"
  using assms(1)
proof (cases rule: hl_step_cases)
  case (plain i' t)
  then show ?thesis using em_text [OF assms(2), of t] by simp
next
  case (one c b i' t)
  then show ?thesis using em_span [OF assms(2), of c t b] by simp
next
  case (two c i' t)
  have "T_plain \<in> set palette" by (simp add: palette_def)
  with assms(2) have "escaped_markup (take i lin @ ''='') (out @ span T_plain ''='' False)"
    by (rule em_span)
  then have "escaped_markup ((take i lin @ ''='') @ t)
               ((out @ span T_plain ''='' False) @ span c t False)"
    using two(2) by (rule em_span)
  with two show ?thesis by simp
qed

lemma hl_loop_escaped:
  "escaped_markup (take i lin) out \<Longrightarrow> escaped_markup lin (hl_loop lin i out)"
proof (induction lin i out rule: hl_loop.induct)
  case (1 lin i out)
  show ?case
  proof (cases "i < length lin")
    case True
    then have "escaped_markup (take (fst (hl_step lin i)) lin) (out @ snd (hl_step lin i))"
      using "1.prems" by (rule hl_step_escaped)
    with True "1.IH" show ?thesis by (simp add: hl_loop_go)
  next
    case False
    with "1.prems" show ?thesis by (simp add: hl_loop_stop)
  qed
qed

subsection \<open>Where the scan stops: quoted strings, values and arrows\<close>

lemma substring_fits:
  assumes "substring lin a (a + n) = t" "length t = n" "0 < n"
  shows "a + n \<le> length lin"
proof -
  have "take n (drop a lin) = t" using assms(1) by (simp add: substring_slice)
  then have "length (take n (drop a lin)) = n" using assms(2) by simp
  then show ?thesis using assms(3) by simp
qed

lemma substring_nth:
  assumes "substring lin a (a + n) = t" "length t = n" "k < n"
  shows "lin ! (a + k) = t ! k"
proof -
  have t: "take n (drop a lin) = t" using assms(1) by (simp add: substring_slice)
  have le: "a + n \<le> length lin" using assms by (intro substring_fits) simp_all
  have "t ! k = take n (drop a lin) ! k" using t by simp
  also have "\<dots> = lin ! (a + k)" using assms(3) le by simp
  finally show ?thesis by simp
qed

lemma quote_count_append: "quote_count (a @ b) = quote_count a + quote_count b"
  by (simp add: quote_count_def)

lemma quote_count_take_ext:
  assumes "v \<le> v'" "\<forall>k. v \<le> k \<and> k < v' \<and> k < length lin \<longrightarrow> lin ! k \<noteq> dq"
  shows "quote_count (take v' lin) = quote_count (take v lin)"
proof -
  have "\<forall>x \<in> set (take (v' - v) (drop v lin)). x \<noteq> dq"
  proof
    fix x assume "x \<in> set (take (v' - v) (drop v lin))"
    then obtain m where m: "m < length (take (v' - v) (drop v lin))"
      and x: "x = take (v' - v) (drop v lin) ! m"
      by (auto simp: in_set_conv_nth)
    from m have "m < v' - v" "v + m < length lin" by auto
    then have "x = lin ! (v + m)" using x by simp
    moreover have "lin ! (v + m) \<noteq> dq"
      using assms(2) \<open>m < v' - v\<close> \<open>v + m < length lin\<close> by simp
    ultimately show "x \<noteq> dq" by simp
  qed
  then have "filter (\<lambda>c. c = dq) (take (v' - v) (drop v lin)) = []"
    by (simp add: filter_empty_conv)
  then have "quote_count (take (v' - v) (drop v lin)) = 0" by (simp add: quote_count_def)
  then show ?thesis
    using take_split [OF assms(1), of lin] by (simp add: quote_count_append)
qed

lemma quote_count_take_Suc:
  "v < length lin \<Longrightarrow>
   quote_count (take (Suc v) lin) = quote_count (take v lin) + (if lin ! v = dq then 1 else 0)"
  by (simp add: take_Suc_conv_app_nth quote_count_append quote_count_def)

lemma hl_step_next:
  assumes "v < length lin"
  obtains
    (single) "fst (hl_step lin v) = v + 1" "lin ! v \<noteq> dq"
  | (str) "lin ! v = dq" "fst (hl_step lin v) = scan_while not_quote lin (v + 1) + 1"
  | (arrow3) "substring lin v (v + 3) = ''<->''" "fst (hl_step lin v) = v + 3"
  | (arrow2) "substring lin v (v + 2) = ''->''" "fst (hl_step lin v) = v + 2"
  | (eq) "lin ! v = CHR ''=''" "fst (hl_step lin v) = scan_while is_value_char lin (v + 1)"
  | (word) "fst (hl_step lin v) = scan_while is_word_char lin v" "lin ! v \<noteq> dq"
proof (cases "lin ! v = dq")
  case True
  then have "fst (hl_step lin v) = scan_while not_quote lin (v + 1) + 1"
    by (simp add: hl_step_def Let_def dq_def tab_def)
  with True show ?thesis by (rule str)
next
  case nq: False
  show ?thesis
  proof (cases "lin ! v = CHR '' '' \<or> lin ! v = tab")
    case True
    then have "fst (hl_step lin v) = v + 1" by (auto simp: hl_step_def Let_def)
    then show ?thesis using nq by (rule single)
  next
    case ws: False
    show ?thesis
    proof (cases "substring lin v (v + 3) = ''<->''")
      case True
      then have "fst (hl_step lin v) = v + 3" using nq ws by (simp add: hl_step_def Let_def)
      with True show ?thesis by (rule arrow3)
    next
      case n3: False
      show ?thesis
      proof (cases "substring lin v (v + 2) = ''->''")
        case True
        then have "fst (hl_step lin v) = v + 2"
          using nq ws n3 by (simp add: hl_step_def Let_def)
        with True show ?thesis by (rule arrow2)
      next
        case n2: False
        show ?thesis
        proof (cases "lin ! v = CHR ''{'' \<or> lin ! v = CHR ''}'' \<or> lin ! v = CHR '':''")
          case True
          then have "fst (hl_step lin v) = v + 1"
            using nq ws n3 n2 by (auto simp: hl_step_def Let_def)
          then show ?thesis using nq by (rule single)
        next
          case nb: False
          show ?thesis
          proof (cases "lin ! v = CHR ''=''")
            case True
            then have "fst (hl_step lin v) = scan_while is_value_char lin (v + 1)"
              using nq ws n3 n2 nb by (simp add: hl_step_def Let_def collect_while_scan)
            with True show ?thesis by (rule eq)
          next
            case ne: False
            show ?thesis
            proof (cases "take (scan_while is_word_char lin v - v) (drop v lin) = []")
              case True
              then have "fst (hl_step lin v) = v + 1"
                using nq ws n3 n2 nb ne by (simp add: hl_step_def Let_def collect_while_scan)
              then show ?thesis using nq by (rule single)
            next
              case False
              then have "fst (hl_step lin v) = scan_while is_word_char lin v"
                using nq ws n3 n2 nb ne by (simp add: hl_step_def Let_def collect_while_scan)
              then show ?thesis using nq by (rule word)
            qed
          qed
        qed
      qed
    qed
  qed
qed

lemma hl_step_at_arrow:
  assumes "substring lin i (i + 3) = ''<->''"
  shows "hl_step lin i = (i + 3, span T_arrow ''<->'' True)"
proof -
  have "lin ! (i + 0) = ''<->'' ! 0" using assms by (rule substring_nth) simp_all
  then have "lin ! i = CHR ''<''" by simp
  then show ?thesis using assms by (simp add: hl_step_def Let_def dq_def tab_def)
qed

lemma no_jump:
  assumes vi: "v < i"
    and arrow: "substring lin i (i + 3) = ''<->''"
    and even_i: "even (quote_count (take i lin))"
    and nv: "\<not> in_value lin i"
    and even_v: "even (quote_count (take v lin))"
  shows "fst (hl_step lin v) \<le> i \<and> even (quote_count (take (fst (hl_step lin v)) lin))"
proof -
  have "lin ! (i + 0) = ''<->'' ! 0" using arrow by (rule substring_nth) simp_all
  then have ch_i: "lin ! i = CHR ''<''" by simp
  have "i + 3 \<le> length lin" using arrow by (rule substring_fits) simp_all
  then have i_lt: "i < length lin" by simp
  with vi have v_lt: "v < length lin" by simp
  from v_lt show ?thesis
  proof (cases rule: hl_step_next)
    case single
    then show ?thesis using vi even_v v_lt by (simp add: quote_count_take_Suc)
  next
    case str
    let ?j = "scan_while not_quote lin (v + 1)"
    have inner: "\<And>k. v + 1 \<le> k \<Longrightarrow> k < ?j \<Longrightarrow> lin ! k \<noteq> dq"
      using scan_while_holds [of "v + 1" _ not_quote lin] by (simp add: not_quote_def)
    have q1: "quote_count (take (v + 1) lin) = quote_count (take v lin) + 1"
      using v_lt str(1) by (simp add: quote_count_take_Suc)
    have le: "?j + 1 \<le> i"
    proof (rule ccontr)
      assume "\<not> ?j + 1 \<le> i"
      then have "i \<le> ?j" by simp
      then have "\<forall>k. v + 1 \<le> k \<and> k < i \<and> k < length lin \<longrightarrow> lin ! k \<noteq> dq"
        using inner by simp
      with vi have "quote_count (take i lin) = quote_count (take (v + 1) lin)"
        by (intro quote_count_take_ext) simp_all
      with q1 even_i even_v show False by simp
    qed
    then have j_lt: "?j < length lin" using i_lt by simp
    then have "\<not> not_quote (lin ! ?j)" by (rule scan_while_end)
    then have at_j: "lin ! ?j = dq" by (simp add: not_quote_def)
    have ge: "v + 1 \<le> ?j" by (rule scan_while_ge)
    have "quote_count (take ?j lin) = quote_count (take (v + 1) lin)"
      using ge inner by (intro quote_count_take_ext) simp_all
    moreover have "quote_count (take (?j + 1) lin) = quote_count (take ?j lin) + 1"
      using j_lt at_j by (simp add: quote_count_take_Suc)
    ultimately have "even (quote_count (take (?j + 1) lin))" using q1 even_v by simp
    with le str(2) show ?thesis by simp
  next
    case arrow3
    have c0: "lin ! (v + 0) = ''<->'' ! 0" using arrow3(1) by (rule substring_nth) simp_all
    have c1: "lin ! (v + 1) = ''<->'' ! 1" using arrow3(1) by (rule substring_nth) simp_all
    have c2: "lin ! (v + 2) = ''<->'' ! 2" using arrow3(1) by (rule substring_nth) simp_all
    have le: "v + 3 \<le> i"
    proof (rule ccontr)
      assume "\<not> v + 3 \<le> i"
      with vi have "i = v + 1 \<or> i = v + 2" by arith
      with c1 c2 ch_i show False by auto
    qed
    have "\<forall>k. v \<le> k \<and> k < v + 3 \<and> k < length lin \<longrightarrow> lin ! k \<noteq> dq"
    proof (intro allI impI)
      fix k assume "v \<le> k \<and> k < v + 3 \<and> k < length lin"
      then have "k = v + 0 \<or> k = v + 1 \<or> k = v + 2" by arith
      with c0 c1 c2 show "lin ! k \<noteq> dq" by (auto simp: dq_def)
    qed
    then have "quote_count (take (v + 3) lin) = quote_count (take v lin)"
      by (intro quote_count_take_ext) simp_all
    with le arrow3(2) even_v show ?thesis by simp
  next
    case arrow2
    have c0: "lin ! (v + 0) = ''->'' ! 0" using arrow2(1) by (rule substring_nth) simp_all
    have c1: "lin ! (v + 1) = ''->'' ! 1" using arrow2(1) by (rule substring_nth) simp_all
    have le: "v + 2 \<le> i"
    proof (rule ccontr)
      assume "\<not> v + 2 \<le> i"
      with vi have "i = v + 1" by arith
      with c1 ch_i show False by auto
    qed
    have "\<forall>k. v \<le> k \<and> k < v + 2 \<and> k < length lin \<longrightarrow> lin ! k \<noteq> dq"
    proof (intro allI impI)
      fix k assume "v \<le> k \<and> k < v + 2 \<and> k < length lin"
      then have "k = v + 0 \<or> k = v + 1" by arith
      with c0 c1 show "lin ! k \<noteq> dq" by (auto simp: dq_def)
    qed
    then have "quote_count (take (v + 2) lin) = quote_count (take v lin)"
      by (intro quote_count_take_ext) simp_all
    with le arrow2(2) even_v show ?thesis by simp
  next
    case eq
    let ?e = "scan_while is_value_char lin (v + 1)"
    have inner: "\<And>k. v + 1 \<le> k \<Longrightarrow> k < ?e \<Longrightarrow> is_value_char (lin ! k)"
      using scan_while_holds [of "v + 1" _ is_value_char lin] by simp
    have le: "?e \<le> i"
    proof (rule ccontr)
      assume "\<not> ?e \<le> i"
      then have "\<forall>k \<in> {v + 1..<i}. is_value_char (lin ! k)" using inner by simp
      with vi eq(1) have "in_value lin i" unfolding in_value_def by auto
      with nv show False by simp
    qed
    have ge: "v + 1 \<le> ?e" by (rule scan_while_ge)
    have "quote_count (take ?e lin) = quote_count (take (v + 1) lin)"
      using ge inner by (intro quote_count_take_ext) (auto simp: is_value_char_def)
    moreover have "quote_count (take (v + 1) lin) = quote_count (take v lin)"
      using v_lt eq(1) by (simp add: quote_count_take_Suc dq_def)
    ultimately show ?thesis using le eq(2) even_v by simp
  next
    case word
    let ?w = "scan_while is_word_char lin v"
    have inner: "\<And>k. v \<le> k \<Longrightarrow> k < ?w \<Longrightarrow> is_word_char (lin ! k)"
      using scan_while_holds [of v _ is_word_char lin] by simp
    have "\<not> is_word_char (CHR ''<'')"
      by (simp add: is_word_char_def is_digit_def in_range_def)
    then have le: "?w \<le> i" using inner [of i] vi ch_i by (cases "?w \<le> i") auto
    have ge: "v \<le> ?w" by (rule scan_while_ge)
    have "\<not> is_word_char dq"
      by (simp add: is_word_char_def is_digit_def in_range_def dq_def)
    then have "\<forall>k. v \<le> k \<and> k < ?w \<and> k < length lin \<longrightarrow> lin ! k \<noteq> dq"
      using inner by metis
    then have "quote_count (take ?w lin) = quote_count (take v lin)"
      using ge by (intro quote_count_take_ext) simp_all
    with le word(1) even_v show ?thesis by simp
  qed
qed

lemma hl_tokens_reach:
  "substring lin i (i + 3) = ''<->'' \<Longrightarrow> even (quote_count (take i lin)) \<Longrightarrow>
   \<not> in_value lin i \<Longrightarrow> v \<le> i \<Longrightarrow> even (quote_count (take v lin)) \<Longrightarrow>
   (i, span T_arrow ''<->'' True) \<in> set (hl_tokens lin v)"
proof (induction lin v rule: hl_tokens.induct)
  case (1 lin v)
  note arrow = "1.prems"(1) and even_i = "1.prems"(2) and nv = "1.prems"(3)
  have "i + 3 \<le> length lin" using arrow by (rule substring_fits) simp_all
  then have v_lt: "v < length lin" using "1.prems"(4) by simp
  show ?case
  proof (cases "v = i")
    case True
    then show ?thesis using v_lt hl_step_at_arrow [OF arrow] by (simp add: hl_tokens_go)
  next
    case False
    with "1.prems"(4) have "v < i" by simp
    then have "fst (hl_step lin v) \<le> i \<and> even (quote_count (take (fst (hl_step lin v)) lin))"
      using arrow even_i nv "1.prems"(5) by (rule no_jump)
    then have "(i, span T_arrow ''<->'' True) \<in> set (hl_tokens lin (fst (hl_step lin v)))"
      using "1.IH" v_lt arrow even_i nv by simp
    then show ?thesis using v_lt by (simp add: hl_tokens_go)
  qed
qed

lemma hl_tokens_emitted:
  "(j, t) \<in> set (hl_tokens lin v) \<Longrightarrow> t = snd (hl_step lin j)"
proof (induction lin v rule: hl_tokens.induct)
  case (1 lin v)
  show ?case
  proof (cases "v < length lin")
    case True
    with "1.prems" "1.IH" show ?thesis by (auto simp: hl_tokens_go)
  next
    case False
    with "1.prems" show ?thesis by (simp add: hl_tokens_stop)
  qed
qed

subsection \<open>The claims about \<open>highlightLine\<close>\<close>

lemma highlightLine_comment:
  "lin \<noteq> [] \<Longrightarrow> startsWith (trimStart lin) ''//'' \<Longrightarrow>
   highlightLine lin =
     replicate (length lin - length (trimStart lin)) (CHR '' '') @
     comment_open @ esc (trimStart lin) @ span_close"
  by (simp add: highlightLine_def Let_def)

lemma highlightLine_scan:
  "lin \<noteq> [] \<Longrightarrow> \<not> startsWith (trimStart lin) ''//'' \<Longrightarrow>
   highlightLine lin = hl_loop lin 0 []"
  by (simp add: highlightLine_def Let_def)

text \<open>
  C3, as amended. Wherever the three characters \<open><->\<close> stand at an index \<open>i\<close> of a line,
  an iteration of the scanning loop that starts at \<open>i\<close> emits the single bold arrow span
  of \<open><->\<close> and continues at \<open>i + 3\<close>, so no iteration ever emits \<open><\<close> alone there.
  The loop does start an iteration at \<open>i\<close> when \<open>i\<close> is outside every quoted string and
  not inside an attribute value (the run of characters other than blank, tab and double
  quote after an \<open>=\<close>); for a line that is not empty and not a comment, the result of
  \<open>highlightLine\<close> is the concatenation of what the iterations emit.
\<close>

theorem arrow3_single_token:
  "substring lin i (i + 3) = ''<->'' \<Longrightarrow>
   hl_step lin i = (i + 3, span T_arrow ''<->'' True) \<and>
   (\<forall>t. (i, t) \<in> set (hl_tokens lin 0) \<longrightarrow> t = span T_arrow ''<->'' True) \<and>
   (even (quote_count (take i lin)) \<and> \<not> in_value lin i \<longrightarrow>
      (i, span T_arrow ''<->'' True) \<in> set (hl_tokens lin 0)) \<and>
   (lin \<noteq> [] \<and> \<not> startsWith (trimStart lin) ''//'' \<longrightarrow>
      highlightLine lin = concat (map snd (hl_tokens lin 0)))"
proof (intro conjI allI impI)
  assume arrow: "substring lin i (i + 3) = ''<->''"
  show step: "hl_step lin i = (i + 3, span T_arrow ''<->'' True)"
    using arrow by (rule hl_step_at_arrow)
  show "t = span T_arrow ''<->'' True" if "(i, t) \<in> set (hl_tokens lin 0)" for t
    using hl_tokens_emitted [OF that] step by simp
  show "(i, span T_arrow ''<->'' True) \<in> set (hl_tokens lin 0)"
    if "even (quote_count (take i lin)) \<and> \<not> in_value lin i"
    using arrow that by (intro hl_tokens_reach) (simp_all add: quote_count_def)
  show "highlightLine lin = concat (map snd (hl_tokens lin 0))"
    if "lin \<noteq> [] \<and> \<not> startsWith (trimStart lin) ''//''"
    using that by (simp add: highlightLine_scan hl_loop_tokens)
qed

theorem arrow3_single_token_witness:
  "hl_step ''a <-> b'' 2 = (5, span T_arrow ''<->'' True) \<and>
   (2, span T_arrow ''<->'' True) \<in> set (hl_tokens ''a <-> b'' 0) \<and>
   highlightLine ''a <-> b'' = concat (map snd (hl_tokens ''a <-> b'' 0))"
proof -
  have h1: "substring ''a <-> b'' 2 (2 + 3) = ''<->''" by code_simp
  have h2: "even (quote_count (take 2 ''a <-> b'')) \<and> \<not> in_value ''a <-> b'' 2"
    by code_simp
  have h3: "''a <-> b'' \<noteq> [] \<and> \<not> startsWith (trimStart ''a <-> b'') ''//''"
    by code_simp
  from arrow3_single_token [OF h1] h2 h3 show ?thesis by simp
qed

text \<open>
  C3 as stated fails: in \<open>a=<->b\<close> the characters \<open><->\<close> stand at index 2, outside every
  quoted string (the line has none), and the loop starts iterations at 0 and 1 only: the
  value scan after \<open>=\<close> takes \<open><->b\<close> as one attribute value. In a comment line the loop
  does not run, and \<open><->\<close> ends up inside the comment span.
\<close>

theorem arrow3_in_value_counterexample:
  "substring ''a=<->b'' 2 5 = ''<->'' \<and> quote_count (take 2 ''a=<->b'') = 0 \<and>
   map fst (hl_tokens ''a=<->b'' 0) = [0, 1] \<and>
   highlightLine ''a=<->b'' =
     span T_prop ''a'' False @ span T_plain ''='' False @ span T_propVal ''<->b'' False \<and>
   highlightLine ''// a <-> b'' = comment_open @ ''// a &lt;-&gt; b'' @ span_close"
  by code_simp

text \<open>
  C4, at a comment line indented by a tab: the result starts with a blank, not with the
  tab of the line. (For every comment line the result is as many blanks as the line has
  leading white space characters, then the comment span: \<open>highlightLine_comment\<close>.)
\<close>

theorem comment_indent_replaced:
  "highlightLine (tab # ''// x'') = CHR '' '' # comment_open @ ''// x'' @ span_close \<and>
   highlightLine (tab # ''// x'') \<noteq> tab # comment_open @ ''// x'' @ span_close \<and>
   hl_loop (tab # ''  '') 0 [] = tab # ''  ''"
  by code_simp

text \<open>
  C6. Every iteration of the scanning loop moves the index forward by at least one; the
  loop is left after at most \<open>length line\<close> iterations, with the result of
  \<open>highlightLine\<close>; the inner loops only move forward, and not beyond the end of the
  line; and at a double quote with no closing one, a single iteration takes the rest of
  the line and ends the loop.
\<close>

theorem highlightLine_terminates:
  "(i < length lin \<longrightarrow> i < fst (hl_step lin i)) \<and>
   hl_run (length lin) lin 0 [] = Some (hl_loop lin 0 []) \<and>
   (lin \<noteq> [] \<and> \<not> startsWith (trimStart lin) ''//'' \<longrightarrow>
      hl_run (length lin) lin 0 [] = Some (highlightLine lin)) \<and>
   j \<le> scan_while P lin j \<and> scan_while P lin j \<le> max j (length lin) \<and>
   (i < length lin \<and> lin ! i = dq \<and> dq \<notin> set (drop (i + 1) lin) \<longrightarrow>
      scan_while not_quote lin (i + 1) = length lin \<and>
      hl_step lin i = (length lin + 1, span T_string (drop i lin) False) \<and>
      hl_loop lin i out = out @ span T_string (drop i lin) False)"
proof (intro conjI impI)
  show "i < fst (hl_step lin i)" if "i < length lin"
    using that by (rule hl_step_progress)
  show run: "hl_run (length lin) lin 0 [] = Some (hl_loop lin 0 [])"
    by (rule hl_run_enough) simp
  show "hl_run (length lin) lin 0 [] = Some (highlightLine lin)"
    if "lin \<noteq> [] \<and> \<not> startsWith (trimStart lin) ''//''"
    using that run by (simp add: highlightLine_scan)
  show "j \<le> scan_while P lin j" by (rule scan_while_ge)
  show "scan_while P lin j \<le> max j (length lin)"
  proof (cases "j \<le> length lin")
    case True
    then show ?thesis using scan_while_le [of j lin P] by simp
  next
    case False
    then show ?thesis by (simp add: scan_while_stuck)
  qed
  assume open_quote: "i < length lin \<and> lin ! i = dq \<and> dq \<notin> set (drop (i + 1) lin)"
  then show "scan_while not_quote lin (i + 1) = length lin"
    by (intro scan_while_all) (auto simp: not_quote_def)
  show step: "hl_step lin i = (length lin + 1, span T_string (drop i lin) False)"
    using open_quote by (intro hl_step_unterminated) simp_all
  have "hl_loop lin i out = hl_loop lin (length lin + 1) (out @ span T_string (drop i lin) False)"
    using open_quote step by (simp add: hl_loop_go)
  then show "hl_loop lin i out = out @ span T_string (drop i lin) False"
    by (simp add: hl_loop_stop)
qed

theorem highlightLine_terminates_witness:
  "2 < fst (hl_step (''x '' @ [dq] @ ''ab'') 2) \<and>
   hl_run (length (''x '' @ [dq] @ ''ab'')) (''x '' @ [dq] @ ''ab'') 0 [] =
     Some (highlightLine (''x '' @ [dq] @ ''ab'')) \<and>
   hl_step (''x '' @ [dq] @ ''ab'') 2 =
     (length (''x '' @ [dq] @ ''ab'') + 1, span T_string (drop 2 (''x '' @ [dq] @ ''ab'')) False) \<and>
   hl_loop (''x '' @ [dq] @ ''ab'') 2 [] = [] @ span T_string (drop 2 (''x '' @ [dq] @ ''ab'')) False"
proof -
  let ?l = "''x '' @ [dq] @ ''ab''"
  have h1: "2 < length ?l" by simp
  have h2: "?l \<noteq> [] \<and> \<not> startsWith (trimStart ?l) ''//''" by code_simp
  have h3: "2 < length ?l \<and> ?l ! 2 = dq \<and> dq \<notin> set (drop (2 + 1) ?l)" by code_simp
  from highlightLine_terminates [of 2 ?l _ _ "[]"] h1 h2 h3 show ?thesis by blast
qed

text \<open>
  C9. The result of \<open>highlightLine\<close> is the text of the line, escaped by \<open>esc\<close>, with
  fixed markup tags in between and nothing else (for a comment line the text is the
  line with its leading white space replaced by blanks; for the empty line the result
  is a line feed). \<open>esc\<close> replaces every \<open>&\<close>, \<open><\<close> and \<open>>\<close> by its entity, and its
  result has no \<open><\<close> and no \<open>>\<close>.
\<close>

theorem highlightLine_escapes:
  "(lin = [] \<longrightarrow> highlightLine lin = [newline]) \<and>
   (lin \<noteq> [] \<and> startsWith (trimStart lin) ''//'' \<longrightarrow>
      escaped_markup
        (replicate (length lin - length (trimStart lin)) (CHR '' '') @ trimStart lin)
        (highlightLine lin)) \<and>
   (lin \<noteq> [] \<and> \<not> startsWith (trimStart lin) ''//'' \<longrightarrow>
      escaped_markup lin (highlightLine lin)) \<and>
   esc t = concat (map escape_char t) \<and>
   CHR ''<'' \<notin> set (esc t) \<and> CHR ''>'' \<notin> set (esc t)"
proof (intro conjI impI)
  show "highlightLine lin = [newline]" if "lin = []"
    using that by (simp add: highlightLine_def)
  show "escaped_markup
          (replicate (length lin - length (trimStart lin)) (CHR '' '') @ trimStart lin)
          (highlightLine lin)"
    if c: "lin \<noteq> [] \<and> startsWith (trimStart lin) ''//''"
  proof -
    let ?sp = "replicate (length lin - length (trimStart lin)) (CHR '' '')"
    have sp: "esc ?sp = ?sp"
      by (induction "length lin - length (trimStart lin)")
         (simp_all add: esc_concat escape_char_def)
    have "escaped_markup ([] @ ?sp) ([] @ esc ?sp)" by (intro em_text em_nil)
    then have "escaped_markup ?sp ?sp" using sp by simp
    then have "escaped_markup ?sp (?sp @ comment_open)"
      by (rule em_tag) (simp add: markup_tags_def)
    then have "escaped_markup (?sp @ trimStart lin) ((?sp @ comment_open) @ esc (trimStart lin))"
      by (rule em_text)
    then have "escaped_markup (?sp @ trimStart lin)
                 (((?sp @ comment_open) @ esc (trimStart lin)) @ span_close)"
      using span_close_markup by (rule em_tag)
    then show ?thesis using c by (simp add: highlightLine_comment)
  qed
  show "escaped_markup lin (highlightLine lin)"
    if c: "lin \<noteq> [] \<and> \<not> startsWith (trimStart lin) ''//''"
  proof -
    have "escaped_markup (take 0 lin) []" by (simp add: em_nil)
    then have "escaped_markup lin (hl_loop lin 0 [])" by (rule hl_loop_escaped)
    then show ?thesis using c by (simp add: highlightLine_scan)
  qed
  show "esc t = concat (map escape_char t)" by (rule esc_concat)
  show "CHR ''<'' \<notin> set (esc t)" "CHR ''>'' \<notin> set (esc t)"
    using esc_no_angle [of t] by simp_all
qed

theorem highlightLine_escapes_witness:
  "escaped_markup ''a<b & c>d'' (highlightLine ''a<b & c>d'') \<and>
   highlightLine ''a<b & c>d'' =
     span T_ident ''a'' False @ ''&lt;'' @ span T_ident ''b'' False @ '' &amp; '' @
     span T_ident ''c'' False @ ''&gt;'' @ span T_ident ''d'' False \<and>
   escaped_markup ''  // <b>'' (highlightLine ''  // <b>'') \<and>
   highlightLine ''  // <b>'' = ''  '' @ comment_open @ ''// &lt;b&gt;'' @ span_close"
proof -
  have h1: "''a<b & c>d'' \<noteq> [] \<and> \<not> startsWith (trimStart ''a<b & c>d'') ''//''"
    by code_simp
  have h2: "''  // <b>'' \<noteq> [] \<and> startsWith (trimStart ''  // <b>'') ''//''"
    by code_simp
  have h3: "replicate (length ''  // <b>'' - length (trimStart ''  // <b>'')) (CHR '' '') @
            trimStart ''  // <b>'' = ''  // <b>''"
    by code_simp
  have e1: "highlightLine ''a<b & c>d'' =
     span T_ident ''a'' False @ ''&lt;'' @ span T_ident ''b'' False @ '' &amp; '' @
     span T_ident ''c'' False @ ''&gt;'' @ span T_ident ''d'' False"
    by code_simp
  have e2: "highlightLine ''  // <b>'' = ''  '' @ comment_open @ ''// &lt;b&gt;'' @ span_close"
    by code_simp
  from highlightLine_escapes [of "''a<b & c>d''"] h1
  have "escaped_markup ''a<b & c>d'' (highlightLine ''a<b & c>d'')" by blast
  moreover from highlightLine_escapes [of "''  // <b>''"] h2 h3
  have "escaped_markup ''  // <b>'' (highlightLine ''  // <b>'')" by metis
  ultimately show ?thesis using e1 e2 by blast
qed

section \<open>Properties of the project store\<close>

lemma getItem_setItem: "getItem (setItem k v ls) k' = (if k' = k then Some v else getItem ls k')"
  by (simp add: getItem_def setItem_def update_conv')

lemma getItem_removeItem: "getItem (removeItem k ls) k' = (if k' = k then None else getItem ls k')"
  by (simp add: getItem_def removeItem_def delete_conv')

lemma storage_keys_fst: "storage_keys ls = map fst ls"
proof -
  have "map (\<lambda>i. fst (ls ! i)) [0..<length ls] = map fst (map (nth ls) [0..<length ls])"
    by simp
  then show ?thesis by (simp add: storage_keys_def map_nth)
qed

lemma getItem_in_keys: "getItem ls k = Some raw \<Longrightarrow> k \<in> set (storage_keys ls)"
  by (auto simp: getItem_def storage_keys_fst dest!: map_of_SomeD intro: rev_image_eqI)

lemma getItem_entry: "getItem ls k = Some raw \<Longrightarrow> (k, raw) \<in> set ls"
  by (simp add: getItem_def map_of_SomeD)

lemma startsWith_append: "startsWith (p @ r) p"
  by (simp add: startsWith_def)

lemma archive_key_prefix: "startsWith (archive_key now k) (archive_prefix k)"
proof -
  have "archive_key now k = archive_prefix k @ archive_timestamp now"
    by (simp add: archive_key_def archive_prefix_def)
  then show ?thesis by (simp only: startsWith_append)
qed

lemma archive_key_not_project: "archive_key now k \<noteq> STORAGE_PREFIX @ k"
proof
  assume "archive_key now k = STORAGE_PREFIX @ k"
  then have "length (archive_key now k) = length (STORAGE_PREFIX @ k)" by simp
  then show False by (simp add: archive_key_def)
qed

lemma archive_key_nonempty: "archive_key now k \<noteq> []"
  by (simp add: archive_key_def STORAGE_PREFIX_def)

lemma set_insert_by: "set (insert_by cmp a bs) = insert a (set bs)"
  by (induction bs) auto

lemma set_sort_by: "set (sort_by cmp xs) = set xs"
  by (induction xs) (simp_all add: sort_by_def set_insert_by)

lemma archive_loop_keeps: "set projects \<subseteq> set (archive_loop ls pre ks projects)"
proof (induction ks arbitrary: projects)
  case Nil
  then show ?case by simp
next
  case (Cons k ks)
  have a: "set projects \<subseteq> set (archive_loop ls pre ks projects)" by (rule Cons.IH)
  have b: "\<And>p. set projects \<subseteq> set (archive_loop ls pre ks (projects @ [p]))"
    using Cons.IH [of "projects @ [p]" for p] by auto
  show ?case using a b by (auto split: option.splits)
qed

lemma archive_loop_lists:
  assumes "k \<in> set ks" "k \<noteq> []" "startsWith k pre"
    and "getItem ls k = Some raw" "truthy raw" "JSON_parse raw = Some parsed"
    and "\<forall>k' \<in> set ks. \<forall>r. startsWith k' pre \<and> getItem ls k' = Some r \<longrightarrow>
           \<not> truthy r \<or> JSON_parse r \<noteq> None"
  shows "JObj (AList.update ''storageKey'' (JStr k) (spread parsed))
           \<in> set (archive_loop ls pre ks projects)"
  using assms(1,7)
proof (induction ks arbitrary: projects)
  case Nil
  then show ?case by simp
next
  case (Cons k' ks)
  let ?p = "JObj (AList.update ''storageKey'' (JStr k) (spread parsed))"
  show ?case
  proof (cases "k' = k")
    case True
    have "?p \<in> set (projects @ [?p])" by simp
    then have "?p \<in> set (archive_loop ls pre ks (projects @ [?p]))"
      using archive_loop_keeps [of "projects @ [?p]" ls pre ks] by blast
    then show ?thesis using True assms(2-6) by simp
  next
    case False
    with Cons.prems have mem: "k \<in> set ks" by simp
    have rest: "\<forall>k' \<in> set ks. \<forall>r. startsWith k' pre \<and> getItem ls k' = Some r \<longrightarrow>
                  \<not> truthy r \<or> JSON_parse r \<noteq> None"
      using Cons.prems(2) by simp
    have ih: "\<And>acc. ?p \<in> set (archive_loop ls pre ks acc)"
      using Cons.IH [OF mem rest] .
    have here: "\<And>r. startsWith k' pre \<Longrightarrow> getItem ls k' = Some r \<Longrightarrow> truthy r \<Longrightarrow>
                  JSON_parse r \<noteq> None"
      using Cons.prems(2) by auto
    show ?thesis using ih here by (auto split: option.splits)
  qed
qed

lemma get_field_update_other:
  "f \<noteq> g \<Longrightarrow> get_field (JObj (AList.update g x fs)) f = get_field (JObj fs) f"
  by (simp add: get_field_def update_conv')

lemma get_field_update_same: "get_field (JObj (AList.update g x fs)) g = Some x"
  by (simp add: get_field_def update_conv')

text \<open>
  C7. After \<open>saveProject(key, diagramData, code)\<close>, \<open>loadProject(key)\<close> returns a project
  whose \<open>key\<close>, \<open>diagramData\<close> and \<open>code\<close> are the saved ones (\<open>code\<close> is absent when it
  was \<open>undefined\<close>), with the time of the save as \<open>savedAt\<close>.
\<close>

theorem save_then_load:
  "\<exists>p. loadProject k (saveProject now k d c ls) = Some p \<and>
       get_field p ''key'' = Some (JStr k) \<and>
       get_field p ''diagramData'' = Some d \<and>
       get_field p ''code'' = map_option JStr c \<and>
       get_field p ''savedAt'' = Some (JStr now)"
proof -
  let ?e = "saved_entry k d c now"
  have "loadProject k (saveProject now k d c ls) = Some ?e"
    by (simp add: loadProject_def saveProject_def getItem_setItem JSON_stringify_def
        JSON_parse_def truthy_def saved_entry_def)
  moreover have "get_field ?e ''key'' = Some (JStr k)"
    by (simp add: saved_entry_def get_field_def)
  moreover have "get_field ?e ''diagramData'' = Some d"
    by (simp add: saved_entry_def get_field_def)
  moreover have "get_field ?e ''code'' = map_option JStr c"
    by (cases c) (simp_all add: saved_entry_def get_field_def)
  moreover have "get_field ?e ''savedAt'' = Some (JStr now)"
    by (cases c) (simp_all add: saved_entry_def get_field_def)
  ultimately show ?thesis by blast
qed

theorem save_then_load_witness:
  "\<exists>p. loadProject ''code-playground''
         (saveProject ''2026-01-01T10:00:00.000Z'' ''code-playground''
            (JObj [(''nodes'', JArr [])]) (Some ''node a'') []) = Some p \<and>
       get_field p ''key'' = Some (JStr ''code-playground'') \<and>
       get_field p ''diagramData'' = Some (JObj [(''nodes'', JArr [])]) \<and>
       get_field p ''code'' = map_option JStr (Some ''node a'') \<and>
       get_field p ''savedAt'' = Some (JStr ''2026-01-01T10:00:00.000Z'')"
  by (rule save_then_load)

text \<open>
  C10. For a key with a saved project, in a storage whose archived texts under the key's
  archive prefix can all be read (each is a JSON text or empty), after
  \<open>archiveProject(key)\<close>: \<open>loadProject(key)\<close> is \<open>null\<close>; the stored text stands
  unaltered under the archive key, which starts with the archive prefix of the key;
  \<open>listArchivedProjects(key)\<close> has an entry with that storage key and the
  \<open>diagramData\<close>, \<open>code\<close> and \<open>savedAt\<close> of the project; and the text under every
  storage key other than the project's and the archive key is unchanged.
\<close>

theorem archive_moves_project:
  assumes "loadProject k ls = Some (JObj fs)" and "archives_readable k ls"
  shows "loadProject k (archiveProject now k ls) = None \<and>
         getItem (archiveProject now k ls) (archive_key now k) = getItem ls (STORAGE_PREFIX @ k) \<and>
         startsWith (archive_key now k) (archive_prefix k) \<and>
         (\<exists>p \<in> set (listArchivedProjects date_time k (archiveProject now k ls)).
            get_field p ''storageKey'' = Some (JStr (archive_key now k)) \<and>
            get_field p ''diagramData'' = get_field (JObj fs) ''diagramData'' \<and>
            get_field p ''code'' = get_field (JObj fs) ''code'' \<and>
            get_field p ''savedAt'' = get_field (JObj fs) ''savedAt'') \<and>
         (\<forall>k'. k' \<noteq> STORAGE_PREFIX @ k \<and> k' \<noteq> archive_key now k \<longrightarrow>
            getItem (archiveProject now k ls) k' = getItem ls k')"
proof -
  let ?ls' = "archiveProject now k ls"
  let ?ak = "archive_key now k"
  let ?pk = "STORAGE_PREFIX @ k"
  from assms(1) obtain raw where raw: "getItem ls ?pk = Some raw" "truthy raw"
    "JSON_parse raw = Some (JObj fs)"
    by (auto simp: loadProject_def split: option.splits if_splits)
  have ls': "?ls' = removeItem ?pk (setItem ?ak raw ls)"
    using raw by (simp add: archiveProject_def)
  have get: "\<And>k'. getItem ?ls' k' =
               (if k' = ?pk then None else if k' = ?ak then Some raw else getItem ls k')"
    by (simp add: ls' getItem_removeItem getItem_setItem)
  have c1: "loadProject k ?ls' = None" by (simp add: loadProject_def get)
  have c2: "getItem ?ls' ?ak = getItem ls ?pk"
    using raw(1) archive_key_not_project [of now k] by (simp add: get)
  have c3: "startsWith ?ak (archive_prefix k)" by (rule archive_key_prefix)
  have c5: "\<forall>k'. k' \<noteq> ?pk \<and> k' \<noteq> ?ak \<longrightarrow> getItem ?ls' k' = getItem ls k'"
    by (simp add: get)
  let ?p = "JObj (AList.update ''storageKey'' (JStr ?ak) (spread (JObj fs)))"
  have ak_get: "getItem ?ls' ?ak = Some raw" using c2 raw(1) by simp
  have readable: "\<forall>k' \<in> set (storage_keys ?ls'). \<forall>r.
                    startsWith k' (archive_prefix k) \<and> getItem ?ls' k' = Some r \<longrightarrow>
                    \<not> truthy r \<or> JSON_parse r \<noteq> None"
  proof (intro ballI allI impI)
    fix k' r
    assume h: "startsWith k' (archive_prefix k) \<and> getItem ?ls' k' = Some r"
    show "\<not> truthy r \<or> JSON_parse r \<noteq> None"
    proof (cases "k' = ?ak")
      case True
      with h ak_get raw(3) show ?thesis by simp
    next
      case False
      with h have "getItem ls k' = Some r" by (simp add: get split: if_splits)
      then have "(k', r) \<in> set ls" by (rule getItem_entry)
      with assms(2) h show ?thesis by (auto simp: archives_readable_def)
    qed
  qed
  have "?p \<in> set (archive_loop ?ls' (archive_prefix k) (storage_keys ?ls') [])"
    using getItem_in_keys [OF ak_get] archive_key_nonempty c3 ak_get raw(2,3) readable
    by (rule archive_loop_lists)
  then have mem: "?p \<in> set (listArchivedProjects date_time k ?ls')"
    by (simp add: listArchivedProjects_def set_sort_by)
  have f1: "get_field ?p ''storageKey'' = Some (JStr ?ak)" by (rule get_field_update_same)
  have f2: "get_field ?p ''diagramData'' = get_field (JObj fs) ''diagramData''"
    by (simp add: get_field_update_other spread_def)
  have f3: "get_field ?p ''code'' = get_field (JObj fs) ''code''"
    by (simp add: get_field_update_other spread_def)
  have f4: "get_field ?p ''savedAt'' = get_field (JObj fs) ''savedAt''"
    by (simp add: get_field_update_other spread_def)
  from mem f1 f2 f3 f4 have c4:
    "\<exists>p \<in> set (listArchivedProjects date_time k ?ls').
       get_field p ''storageKey'' = Some (JStr ?ak) \<and>
       get_field p ''diagramData'' = get_field (JObj fs) ''diagramData'' \<and>
       get_field p ''code'' = get_field (JObj fs) ''code'' \<and>
       get_field p ''savedAt'' = get_field (JObj fs) ''savedAt''"
    by blast
  from c1 c2 c3 c4 c5 show ?thesis by blast
qed

theorem archive_moves_project_witness:
  "loadProject ''code-playground''
     (archiveProject ''2026-01-02T08:30:00.000Z'' ''code-playground'' sample_storage) = None \<and>
   archive_key ''2026-01-02T08:30:00.000Z'' ''code-playground'' =
     ''cubegen-project:archive:code-playground:2026-01-02T08-30-00-000Z'' \<and>
   getItem (archiveProject ''2026-01-02T08:30:00.000Z'' ''code-playground'' sample_storage)
     (archive_key ''2026-01-02T08:30:00.000Z'' ''code-playground'') =
     getItem sample_storage (STORAGE_PREFIX @ ''code-playground'') \<and>
   map (\<lambda>p. get_field p ''code'')
     (listArchivedProjects (\<lambda>v. None) ''code-playground''
        (archiveProject ''2026-01-02T08:30:00.000Z'' ''code-playground'' sample_storage)) =
     [Some (JStr ''node a'')] \<and>
   loadProject ''visual-playground''
     (archiveProject ''2026-01-02T08:30:00.000Z'' ''code-playground'' sample_storage) =
     loadProject ''visual-playground'' sample_storage"
proof -
  let ?fs = "[(''key'', JStr ''code-playground''),
              (''diagramData'', JObj [(''nodes'', JArr [JStr ''a''])]),
              (''code'', JStr ''node a''), (''savedAt'', JStr ''2026-01-01T09:00:00.000Z'')]"
  have h1: "loadProject ''code-playground'' sample_storage = Some (JObj ?fs)"
    by (simp add: sample_storage_def loadProject_def saveProject_def getItem_setItem
        STORAGE_PREFIX_def JSON_stringify_def JSON_parse_def truthy_def saved_entry_def)
  have h2: "archives_readable ''code-playground'' sample_storage"
    by (simp add: archives_readable_def sample_storage_def saveProject_def setItem_def
        JSON_stringify_def JSON_parse_def truthy_def)
  note t = archive_moves_project [OF h1 h2, of "''2026-01-02T08:30:00.000Z''" "\<lambda>v. None"]
  have a: "archive_key ''2026-01-02T08:30:00.000Z'' ''code-playground'' =
     ''cubegen-project:archive:code-playground:2026-01-02T08-30-00-000Z''"
    by (simp add: archive_key_def archive_timestamp_def STORAGE_PREFIX_def)
  have l: "map (\<lambda>p. get_field p ''code'')
     (listArchivedProjects (\<lambda>v. None) ''code-playground''
        (archiveProject ''2026-01-02T08:30:00.000Z'' ''code-playground'' sample_storage)) =
     [Some (JStr ''node a'')]"
    by (simp add: sample_storage_def listArchivedProjects_def archiveProject_def
        saveProject_def getItem_def setItem_def removeItem_def storage_keys_fst
        STORAGE_PREFIX_def JSON_stringify_def JSON_parse_def truthy_def saved_entry_def
        archive_key_def archive_timestamp_def archive_prefix_def startsWith_def sort_by_def
        spread_def get_field_def)
  have o: "loadProject ''visual-playground''
     (archiveProject ''2026-01-02T08:30:00.000Z'' ''code-playground'' sample_storage) =
     loadProject ''visual-playground'' sample_storage"
    using t a by (simp add: loadProject_def STORAGE_PREFIX_def)
  from t a l o show ?thesis by blast
qed

section \<open>Properties of the icon lookup\<close>

text \<open>
  C8. When \<open>BASE_ICONS\<close> has the generic icon, \<open>ICONS[key]\<close> returns a value for every
  key, at once: the base icon when the key is in \<open>BASE_ICONS\<close>; the cached cloud icon when
  it is not, the cloud library is loaded and has the key; the generic icon otherwise. A
  miss before the library is loaded returns the generic icon and only marks the load as
  started; once the import has settled with a library, its keys are answered from it.
\<close>

theorem icons_lookup_total:
  assumes "BASE_ICONS Generic \<noteq> None"
  shows "fst (ICONS_get BASE_ICONS Generic st prop) \<noteq> None \<and>
         (BASE_ICONS prop \<noteq> None \<longrightarrow>
            ICONS_get BASE_ICONS Generic st prop = (BASE_ICONS prop, st)) \<and>
         (BASE_ICONS prop = None \<and> CLOUD_ICONS_LOADED st \<and> CLOUD_ICONS_CACHE st prop \<noteq> None \<longrightarrow>
            ICONS_get BASE_ICONS Generic st prop =
              (map_option TextNode (CLOUD_ICONS_CACHE st prop), st)) \<and>
         (BASE_ICONS prop = None \<and> \<not> (CLOUD_ICONS_LOADED st \<and> CLOUD_ICONS_CACHE st prop \<noteq> None) \<longrightarrow>
            fst (ICONS_get BASE_ICONS Generic st prop) = BASE_ICONS Generic) \<and>
         (BASE_ICONS prop = None \<and> \<not> CLOUD_ICONS_LOADED st \<longrightarrow>
            snd (ICONS_get BASE_ICONS Generic st prop) = st\<lparr>load_pending := True\<rparr>) \<and>
         (BASE_ICONS prop = None \<and> lib prop \<noteq> None \<longrightarrow>
            fst (ICONS_get BASE_ICONS Generic (import_settled (Some lib) st) prop) =
              map_option TextNode (lib prop))"
proof (intro conjI impI)
  show "fst (ICONS_get BASE_ICONS Generic st prop) \<noteq> None"
    using assms by (auto simp: ICONS_get_def)
  show "ICONS_get BASE_ICONS Generic st prop = (BASE_ICONS prop, st)"
    if "BASE_ICONS prop \<noteq> None"
    using that by (simp add: ICONS_get_def)
  show "ICONS_get BASE_ICONS Generic st prop = (map_option TextNode (CLOUD_ICONS_CACHE st prop), st)"
    if "BASE_ICONS prop = None \<and> CLOUD_ICONS_LOADED st \<and> CLOUD_ICONS_CACHE st prop \<noteq> None"
    using that by (simp add: ICONS_get_def)
  show "fst (ICONS_get BASE_ICONS Generic st prop) = BASE_ICONS Generic"
    if "BASE_ICONS prop = None \<and> \<not> (CLOUD_ICONS_LOADED st \<and> CLOUD_ICONS_CACHE st prop \<noteq> None)"
    using that by (auto simp: ICONS_get_def)
  show "snd (ICONS_get BASE_ICONS Generic st prop) = st\<lparr>load_pending := True\<rparr>"
    if "BASE_ICONS prop = None \<and> \<not> CLOUD_ICONS_LOADED st"
    using that by (cases "load_pending st") (auto simp: ICONS_get_def loadCloudIcons_def)
  show "fst (ICONS_get BASE_ICONS Generic (import_settled (Some lib) st) prop) =
          map_option TextNode (lib prop)"
    if "BASE_ICONS prop = None \<and> lib prop \<noteq> None"
    using that by (auto simp: ICONS_get_def import_settled_def)
qed

theorem icons_lookup_total_witness:
  "ICONS_get [''generic'' \<mapsto> Element (0::nat), ''user'' \<mapsto> Element 1] ''generic''
     initial_icons ''aws-s3'' = (Some (Element 0), initial_icons\<lparr>load_pending := True\<rparr>) \<and>
   ICONS_get [''generic'' \<mapsto> Element (0::nat), ''user'' \<mapsto> Element 1] ''generic''
     initial_icons ''user'' = (Some (Element 1), initial_icons) \<and>
   fst (ICONS_get [''generic'' \<mapsto> Element (0::nat), ''user'' \<mapsto> Element 1] ''generic''
     (import_settled (Some [''aws-s3'' \<mapsto> ''data:s3'']) (initial_icons\<lparr>load_pending := True\<rparr>))
     ''aws-s3'') = Some (TextNode ''data:s3'')"
proof -
  let ?B = "[''generic'' \<mapsto> Element (0::nat), ''user'' \<mapsto> Element 1]"
  have g: "?B ''generic'' \<noteq> None" by simp
  have m: "?B ''aws-s3'' = None \<and> \<not> CLOUD_ICONS_LOADED initial_icons"
    by (simp add: initial_icons_def)
  have m': "?B ''aws-s3'' = None \<and>
            \<not> (CLOUD_ICONS_LOADED initial_icons \<and> CLOUD_ICONS_CACHE initial_icons ''aws-s3'' \<noteq> None)"
    by (simp add: initial_icons_def)
  have u: "?B ''user'' \<noteq> None" by simp
  have l: "?B ''aws-s3'' = None \<and> [''aws-s3'' \<mapsto> ''data:s3''] ''aws-s3'' \<noteq> None" by simp
  note t = icons_lookup_total [of ?B "''generic''", OF g]
  have 1: "fst (ICONS_get ?B ''generic'' initial_icons ''aws-s3'') = Some (Element 0)"
    using t [of initial_icons "''aws-s3''"] m' by simp
  have 2: "snd (ICONS_get ?B ''generic'' initial_icons ''aws-s3'') = initial_icons\<lparr>load_pending := True\<rparr>"
    using t [of initial_icons "''aws-s3''"] m by blast
  have 3: "ICONS_get ?B ''generic'' initial_icons ''user'' = (Some (Element 1), initial_icons)"
    using t [of initial_icons "''user''"] u by simp
  have 4: "fst (ICONS_get ?B ''generic''
     (import_settled (Some [''aws-s3'' \<mapsto> ''data:s3'']) (initial_icons\<lparr>load_pending := True\<rparr>))
     ''aws-s3'') = Some (TextNode ''data:s3'')"
    using t [of _ "''aws-s3''" "[''aws-s3'' \<mapsto> ''data:s3'']"] l by simp
  from 1 2 have "ICONS_get ?B ''generic'' initial_icons ''aws-s3'' =
                   (Some (Element 0), initial_icons\<lparr>load_pending := True\<rparr>)"
    by (simp add: prod_eq_iff)
  with 3 4 show ?thesis by blast
qed

section \<open>Properties of the Generate action and of the rows of the editor\<close>

lemma filter_row_number:
  "map Suc (filter (\<lambda>i. Suc i = n) [0..<m]) = (if 1 \<le> n \<and> n \<le> m then [n] else [])"
  by (induction m) auto

lemma editor_rows_numbers:
  "map lineNum (filter marker (editor_rows v a f e)) =
     (case e of None \<Rightarrow> []
      | Some n \<Rightarrow> if 1 \<le> n \<and> n \<le> length (split_lines v) then [n] else [])"
proof (cases e)
  case None
  then show ?thesis
    by (simp add: editor_rows_def Let_def render_row_def filter_map comp_def)
next
  case (Some n)
  have "map lineNum (filter marker (editor_rows v a f (Some n))) =
        map Suc (filter (\<lambda>i. Suc i = n) [0..<length (split_lines v)])"
    by (simp add: editor_rows_def Let_def render_row_def filter_map comp_def)
  then show ?thesis using Some by (simp only: filter_row_number option.case)
qed

lemma editor_rows_marker:
  "r \<in> set (editor_rows v a f e) \<Longrightarrow> marker r \<longleftrightarrow> Some (lineNum r) = e"
  by (auto simp: editor_rows_def Let_def render_row_def)

text \<open>
  C1. When the handler parses (the code is not blank) and the parse result has a
  non-empty error list (and so, by the parser's contract, signals failure), the handler
  passes the line of the first error as \<open>errorLine\<close>, and the editor shows the error
  marker on the rows whose number is that line and on no other: on exactly that one row
  when the code has a line of that number.
\<close>

theorem generate_marks_first_error:
  assumes "trim (code st) \<noteq> []"
    and "signals_failure (parse (code st))"
    and "errors (parse (code st)) \<noteq> []"
  shows "errorLine_prop (handleGenerate parse st) = Some (line (hd (errors (parse (code st))))) \<and>
         (\<forall>r \<in> set (editor_rows (code (handleGenerate parse st)) a f
                      (errorLine_prop (handleGenerate parse st))).
            marker r \<longleftrightarrow> lineNum r = line (hd (errors (parse (code st))))) \<and>
         map lineNum (filter marker
           (editor_rows (code (handleGenerate parse st)) a f
              (errorLine_prop (handleGenerate parse st)))) =
           (if 1 \<le> line (hd (errors (parse (code st)))) \<and>
               line (hd (errors (parse (code st)))) \<le> length (split_lines (code st))
            then [line (hd (errors (parse (code st))))] else [])"
proof -
  let ?r = "parse (code st)"
  let ?st = "handleGenerate parse st"
  from assms(2,3) have fail: "\<not> success ?r" by (simp add: signals_failure_def)
  with assms(1) have st': "?st = st\<lparr>parseErrors := errors ?r,
      error_banner := Some (syntax_error_text (errors ?r))\<rparr>"
    by (simp add: handleGenerate_def Let_def)
  from assms(3) obtain e es where es: "errors ?r = e # es" by (cases "errors ?r") auto
  have p: "errorLine_prop ?st = Some (line (hd (errors ?r)))"
    by (simp add: st' errorLine_prop_def es)
  have c: "code ?st = code st" by (simp add: st')
  have m: "\<forall>r \<in> set (editor_rows (code ?st) a f (errorLine_prop ?st)).
             marker r \<longleftrightarrow> lineNum r = line (hd (errors ?r))"
    using editor_rows_marker [of _ "code ?st" a f "errorLine_prop ?st"] p by auto
  have n: "map lineNum (filter marker (editor_rows (code ?st) a f (errorLine_prop ?st))) =
           (if 1 \<le> line (hd (errors ?r)) \<and> line (hd (errors ?r)) \<le> length (split_lines (code st))
            then [line (hd (errors ?r))] else [])"
    by (simp add: editor_rows_numbers p c)
  from p m n show ?thesis by blast
qed

theorem generate_marks_first_error_witness:
  "errorLine_prop (handleGenerate (\<lambda>c. sample_failure) sample_playground) = Some 2 \<and>
   map lineNum (filter marker
     (editor_rows (code (handleGenerate (\<lambda>c. sample_failure) sample_playground)) 1 True
        (errorLine_prop (handleGenerate (\<lambda>c. sample_failure) sample_playground)))) = [2]"
proof -
  have h1: "trim (code sample_playground) \<noteq> []"
    by (simp add: sample_playground_def trim_def is_js_space_def newline_def)
  have h2: "signals_failure ((\<lambda>c. sample_failure) (code sample_playground))"
    by (simp add: signals_failure_def sample_failure_def)
  have h3: "errors ((\<lambda>c. sample_failure) (code sample_playground)) \<noteq> []"
    by (simp add: sample_failure_def)
  have l: "line (hd (errors sample_failure)) = 2" by (simp add: sample_failure_def)
  have n: "length (split_lines (code sample_playground)) = 2"
    by (simp add: sample_playground_def split_lines_def newline_def)
  note t = generate_marks_first_error [OF h1 h2 h3, of 1 True]
  have 1: "errorLine_prop (handleGenerate (\<lambda>c. sample_failure) sample_playground) = Some 2"
    using t unfolding l by blast
  have "map lineNum (filter marker
     (editor_rows (code (handleGenerate (\<lambda>c. sample_failure) sample_playground)) 1 True
        (errorLine_prop (handleGenerate (\<lambda>c. sample_failure) sample_playground)))) =
     (if 1 \<le> (2::nat) \<and> (2::nat) \<le> 2 then [2] else [])"
    using t unfolding l n by blast
  then have 2: "map lineNum (filter marker
     (editor_rows (code (handleGenerate (\<lambda>c. sample_failure) sample_playground)) 1 True
        (errorLine_prop (handleGenerate (\<lambda>c. sample_failure) sample_playground)))) = [2]"
    by simp
  from 1 2 show ?thesis by blast
qed

text \<open>
  C2. When \<open>parseCubeGenDSL\<close> reports failure (\<open>success\<close> is false or \<open>data\<close> is absent), the
  handler leaves the history, the history index and the selection as they are and
  stores the whole error list returned. (For a blank code the handler does not parse,
  and leaves them as they are, too.)
\<close>

theorem generate_failure_keeps_diagram:
  "(trim (code st) = [] \<or> \<not> (success (parse (code st)) \<and> data (parse (code st)) \<noteq> None) \<longrightarrow>
      history (handleGenerate parse st) = history st \<and>
      historyIndex (handleGenerate parse st) = historyIndex st \<and>
      selectedIds (handleGenerate parse st) = selectedIds st) \<and>
   (trim (code st) \<noteq> [] \<and> \<not> (success (parse (code st)) \<and> data (parse (code st)) \<noteq> None) \<longrightarrow>
      parseErrors (handleGenerate parse st) = errors (parse (code st)))"
  by (auto simp: handleGenerate_def Let_def)

theorem generate_failure_keeps_diagram_witness:
  "history (handleGenerate (\<lambda>c. sample_failure) sample_playground) = [None] \<and>
   historyIndex (handleGenerate (\<lambda>c. sample_failure) sample_playground) = 0 \<and>
   selectedIds (handleGenerate (\<lambda>c. sample_failure) sample_playground) = [''n1''] \<and>
   parseErrors (handleGenerate (\<lambda>c. sample_failure) sample_playground) =
     [\<lparr>line = 2, message = ''unresolved b''\<rparr>, \<lparr>line = 1, message = ''missing label''\<rparr>]"
proof -
  have h1: "trim (code sample_playground) \<noteq> []"
    by (simp add: sample_playground_def trim_def is_js_space_def newline_def)
  have h2: "\<not> (success ((\<lambda>c. sample_failure) (code sample_playground)) \<and>
                data ((\<lambda>c. sample_failure) (code sample_playground)) \<noteq> None)"
    by (simp add: sample_failure_def)
  from generate_failure_keeps_diagram [of sample_playground "\<lambda>c. sample_failure"] h1 h2
  show ?thesis by (simp add: sample_playground_def sample_failure_def)
qed

section \<open>Properties of the parser, as the specification describes it\<close>

text \<open>
  C5. The errors that the parser returns are in ascending order of their line numbers,
  whatever the order of their detection; they are the errors detected, none lost, those
  of one line in the order of their detection.
\<close>

theorem parse_errors_ascending:
  "sorted (map line (returned_errors (parseCubeGenDSL g src))) \<and>
   mset (returned_errors (parseCubeGenDSL g src)) = mset (detected_errors g src) \<and>
   filter (\<lambda>e. line e = n) (returned_errors (parseCubeGenDSL g src)) =
     filter (\<lambda>e. line e = n) (detected_errors g src)"
proof (cases "detected_errors g src = []")
  case True
  then show ?thesis by (simp add: parseCubeGenDSL_def returned_errors_def Let_def)
next
  case False
  then have "returned_errors (parseCubeGenDSL g src) = sort_key line (detected_errors g src)"
    by (simp add: parseCubeGenDSL_def returned_errors_def Let_def)
  then show ?thesis by (simp add: sort_key_stable)
qed

theorem parse_errors_ascending_witness:
  "map line (detected_errors sample_grammar sample_document) = [7, 3, 10] \<and>
   map line (returned_errors (parseCubeGenDSL sample_grammar sample_document)) = [3, 7, 10] \<and>
   sorted (map line (returned_errors (parseCubeGenDSL sample_grammar sample_document)))"
proof -
  have d: "map line (detected_errors sample_grammar sample_document) = [7, 3, 10]"
    by code_simp
  have r: "map line (returned_errors (parseCubeGenDSL sample_grammar sample_document)) = [3, 7, 10]"
    by code_simp
  from parse_errors_ascending [of sample_grammar sample_document] d r show ?thesis by blast
qed

end
